theory Spec2Isabelle
  imports Main
begin

section \<open>Strings\<close>

text \<open>
  A JavaScript string is a sequence of UTF-16 code units. The model covers the code units
  0..255 (ASCII and Latin-1), one \<^typ>\<open>char\<close> each; every keyword and every pattern of
  the server lies in that range (the degree sign is the code unit 0xB0).
  \<^verbatim>\<open>toLowerCase\<close> maps A-Z and the Latin-1 capitals 0xC0..0xDE (without the
  multiplication sign 0xD7) to the letter 32 places up, and leaves every other code unit
  of the range alone.
\<close>

definition upper_letters :: string where
  "upper_letters = ''ABCDEFGHIJKLMNOPQRSTUVWXYZ'' @
     [CHR 0xC0, CHR 0xC1, CHR 0xC2, CHR 0xC3, CHR 0xC4, CHR 0xC5, CHR 0xC6, CHR 0xC7,
      CHR 0xC8, CHR 0xC9, CHR 0xCA, CHR 0xCB, CHR 0xCC, CHR 0xCD, CHR 0xCE, CHR 0xCF,
      CHR 0xD0, CHR 0xD1, CHR 0xD2, CHR 0xD3, CHR 0xD4, CHR 0xD5, CHR 0xD6,
      CHR 0xD8, CHR 0xD9, CHR 0xDA, CHR 0xDB, CHR 0xDC, CHR 0xDD, CHR 0xDE]"

definition lower_letters :: string where
  "lower_letters = ''abcdefghijklmnopqrstuvwxyz'' @
     [CHR 0xE0, CHR 0xE1, CHR 0xE2, CHR 0xE3, CHR 0xE4, CHR 0xE5, CHR 0xE6, CHR 0xE7,
      CHR 0xE8, CHR 0xE9, CHR 0xEA, CHR 0xEB, CHR 0xEC, CHR 0xED, CHR 0xEE, CHR 0xEF,
      CHR 0xF0, CHR 0xF1, CHR 0xF2, CHR 0xF3, CHR 0xF4, CHR 0xF5, CHR 0xF6,
      CHR 0xF8, CHR 0xF9, CHR 0xFA, CHR 0xFB, CHR 0xFC, CHR 0xFD, CHR 0xFE]"

definition lower_char :: "char \<Rightarrow> char" where
  "lower_char c =
     (case map_of (zip upper_letters lower_letters) c of Some l \<Rightarrow> l | None \<Rightarrow> c)"

definition toLowerCase :: "string \<Rightarrow> string" where
  "toLowerCase s = map lower_char s"

text \<open>\<^verbatim>\<open>s.includes(k)\<close>: \<open>k\<close> occurs in \<open>s\<close> at some position.\<close>

fun starts_with :: "string \<Rightarrow> string \<Rightarrow> bool" where
  "starts_with s [] = True"
| "starts_with [] (k # ks) = False"
| "starts_with (c # cs) (k # ks) = (c = k \<and> starts_with cs ks)"

fun includes_str :: "string \<Rightarrow> string \<Rightarrow> bool" where
  "includes_str [] k = starts_with [] k"
| "includes_str (c # cs) k = (starts_with (c # cs) k \<or> includes_str cs k)"

section \<open>Regular expressions\<close>

text \<open>
  The patterns of \<^verbatim>\<open>processInput\<close> use literal words, character classes, sequence,
  alternation, the greedy quantifiers \<^verbatim>\<open>+\<close> and \<^verbatim>\<open>*\<close> on a character class,
  \<^verbatim>\<open>?\<close> and capture groups, all under the flag \<^verbatim>\<open>i\<close>. A character class is the list
  of its members.
\<close>

datatype regex =
    Lit string
  | Cls string
  | Seq regex regex
  | Alt regex regex
  | Plus string
  | Star string
  | Opt regex
  | Group regex

text \<open>
  Under \<^verbatim>\<open>i\<close> (and without \<^verbatim>\<open>u\<close>) two code units match when their canonical forms
  agree. The canonical form is the upper-case letter, unless upper-casing leaves the range
  of one code unit or maps a non-ASCII code unit into ASCII; inside Latin-1 that makes the
  sharp s, the micro sign and y with diaeresis their own canonical forms.
\<close>

definition canonicalize :: "char \<Rightarrow> char" where
  "canonicalize c =
     (case map_of (zip lower_letters upper_letters) c of Some u \<Rightarrow> u | None \<Rightarrow> c)"

definition in_class :: "string \<Rightarrow> char \<Rightarrow> bool" where
  "in_class cls c = (canonicalize c \<in> set (map canonicalize cls))"

text \<open>
  The matcher backtracks. \<open>run r s\<close> lists, in the order the engine tries them, every way
  \<open>r\<close> can match at the start of \<open>s\<close>: the captured groups and the input left over. The
  head of the list is the engine's match. A greedy quantifier takes one more character
  first and gives it back only afterwards.
\<close>

fun star_cls :: "string \<Rightarrow> string \<Rightarrow> string list" where
  "star_cls cls [] = [[]]"
| "star_cls cls (c # cs) =
     (if in_class cls c then star_cls cls cs @ [c # cs] else [c # cs])"

fun run :: "regex \<Rightarrow> string \<Rightarrow> (string list \<times> string) list" where
  "run (Lit w) s =
     (if length w \<le> length s \<and> map canonicalize (take (length w) s) = map canonicalize w
      then [([], drop (length w) s)] else [])"
| "run (Cls cls) s =
     (case s of [] \<Rightarrow> [] | c # cs \<Rightarrow> if in_class cls c then [([], cs)] else [])"
| "run (Seq a b) s =
     concat (map (\<lambda>(c1, r1). map (\<lambda>(c2, r2). (c1 @ c2, r2)) (run b r1)) (run a s))"
| "run (Alt a b) s = run a s @ run b s"
| "run (Plus cls) s =
     (case s of [] \<Rightarrow> []
      | c # cs \<Rightarrow> if in_class cls c then map (Pair []) (star_cls cls cs) else [])"
| "run (Star cls) s = map (Pair []) (star_cls cls s)"
| "run (Opt a) s = run a s @ [([], s)]"
| "run (Group a) s = map (\<lambda>(c, r). (take (length s - length r) s # c, r)) (run a s)"

text \<open>
  \<^verbatim>\<open>RegExp.prototype.exec\<close> from the start of \<open>s\<close>: the first position with a match wins.
  The result is the match array (the matched text, then the groups) and the input after
  the match. None of the patterns looks behind, so matching on the rest of the input is
  matching at an index of the whole.
\<close>

fun regexp_exec :: "regex \<Rightarrow> string \<Rightarrow> (string list \<times> string) option" where
  "regexp_exec r [] =
     (case run r [] of [] \<Rightarrow> None | (caps, rest) # _ \<Rightarrow> Some ([] # caps, rest))"
| "regexp_exec r (c # cs) =
     (case run r (c # cs) of
        [] \<Rightarrow> regexp_exec r cs
      | (caps, rest) # _ \<Rightarrow>
          Some (take (length (c # cs) - length rest) (c # cs) # caps, rest))"

text \<open>\<^verbatim>\<open>s.match(r)\<close> for a pattern without the flag \<^verbatim>\<open>g\<close>: the match array or null.\<close>

definition js_match :: "regex \<Rightarrow> string \<Rightarrow> string list option" where
  "js_match r s = map_option fst (regexp_exec r s)"

text \<open>Every result of the matcher leaves a suffix of its input.\<close>

lemma star_cls_suffix: "r \<in> set (star_cls cls s) \<Longrightarrow> \<exists>w. s = w @ r"
proof (induction s)
  case Nil
  then show ?case by simp
next
  case (Cons c cs)
  then show ?case
    by (fastforce split: if_splits intro: exI [of _ "c # w" for w] exI [of _ "[]"])
qed

lemma run_suffix: "(caps, r) \<in> set (run re s) \<Longrightarrow> \<exists>w. s = w @ r"
proof (induction re arbitrary: caps r s)
  case (Lit w)
  then show ?case
    by (auto split: if_splits intro: exI [of _ "take (length w) s"])
next
  case (Cls cls)
  then show ?case by (auto split: list.splits if_splits)
next
  case (Seq a b)
  from Seq.prems obtain c1 r1 c2 where
    a: "(c1, r1) \<in> set (run a s)" and b: "(c2, r) \<in> set (run b r1)"
    by auto
  from Seq.IH(1) [OF a] Seq.IH(2) [OF b] show ?case by auto
next
  case (Alt a b)
  then show ?case by auto
next
  case (Plus cls)
  then show ?case
    by (auto split: list.splits if_splits dest!: star_cls_suffix intro: exI [of _ "c # w" for c w])
next
  case (Star cls)
  then show ?case by (auto dest!: star_cls_suffix)
next
  case (Opt a)
  then show ?case by auto
next
  case (Group a)
  then show ?case by auto
qed

lemma run_length: "(caps, r) \<in> set (run re s) \<Longrightarrow> length r \<le> length s"
  by (drule run_suffix) auto

lemma run_hd_length: "run re s = (caps, r) # ps \<Longrightarrow> length r \<le> length s"
  using run_length [of caps r re s] by simp

lemma regexp_exec_length: "regexp_exec re s = Some (m, r) \<Longrightarrow> length r \<le> length s"
proof (induction s)
  case Nil
  show ?case
  proof (cases "run re []")
    case Nil
    with Nil.prems show ?thesis by simp
  next
    case (Cons p ps)
    obtain caps rest where p: "p = (caps, rest)" by (cases p)
    from Cons p have "run re [] = (caps, rest) # ps" by simp
    then have "length rest \<le> length ([] :: string)" by (rule run_hd_length)
    with Cons p Nil.prems show ?thesis by simp
  qed
next
  case (Cons c cs)
  show ?case
  proof (cases "run re (c # cs)")
    case Nil
    with Cons.IH Cons.prems show ?thesis by simp
  next
    case (Cons p ps)
    obtain caps rest where p: "p = (caps, rest)" by (cases p)
    from Cons p have "run re (c # cs) = (caps, rest) # ps" by simp
    then have "length rest \<le> length (c # cs)" by (rule run_hd_length)
    with Cons p Cons.prems show ?thesis by simp
  qed
qed

lemma regexp_exec_split:
  "regexp_exec re s = Some (m, r) \<Longrightarrow> \<exists>pre whole caps. m = whole # caps \<and> s = pre @ whole @ r"
proof (induction s)
  case Nil
  show ?case
  proof (cases "run re []")
    case Nil
    with Nil.prems show ?thesis by simp
  next
    case (Cons p ps)
    obtain caps rest where p: "p = (caps, rest)" by (cases p)
    from Cons p have "run re [] = (caps, rest) # ps" by simp
    then have "length rest \<le> length ([] :: string)" by (rule run_hd_length)
    with Cons p Nil.prems show ?thesis by auto
  qed
next
  case (Cons c cs)
  show ?case
  proof (cases "run re (c # cs)")
    case Nil
    with Cons.prems have "regexp_exec re cs = Some (m, r)" by simp
    from Cons.IH [OF this] obtain pre whole caps where
      "m = whole # caps" "cs = pre @ whole @ r" by blast
    then have "m = whole # caps \<and> c # cs = (c # pre) @ whole @ r" by simp
    then show ?thesis by blast
  next
    case (Cons p ps)
    obtain caps rest where p: "p = (caps, rest)" by (cases p)
    from Cons p have "(caps, rest) \<in> set (run re (c # cs))" by simp
    from run_suffix [OF this] obtain w where w: "c # cs = w @ rest" ..
    from Cons p Cons.prems have m: "m = take (length (c # cs) - length rest) (c # cs) # caps"
      and r: "r = rest" by auto
    from w have "length (c # cs) - length rest = length w"
      by (metis add_diff_cancel_right' length_append)
    with w have "take (length (c # cs) - length rest) (c # cs) = w" by simp
    with m r w have "m = w # caps \<and> c # cs = [] @ w @ r" by simp
    then show ?thesis by blast
  qed
qed

text \<open>
  \<^verbatim>\<open>s.match(r)\<close> for a pattern with the flag \<^verbatim>\<open>g\<close> collects the matched texts from left
  to right, each search starting where the match before it ended, one place further after
  an empty match; with no match at all the result is null.
\<close>

function match_all :: "regex \<Rightarrow> string \<Rightarrow> string list" where
  "match_all r s =
     (case regexp_exec r s of
        None \<Rightarrow> []
      | Some (m, rest) \<Rightarrow>
          (case m of
             [] \<Rightarrow> []
           | whole # _ \<Rightarrow>
               whole #
               (if whole = [] then (case rest of [] \<Rightarrow> [] | _ # rest' \<Rightarrow> match_all r rest')
                else match_all r rest)))"
  by pat_completeness auto
termination
proof (relation "measure (\<lambda>(r, s). length s)")
  show "wf (measure (\<lambda>(r :: regex, s :: string). length s))" by simp
next
  fix r :: regex and s :: string and x2 m rest whole x22 c rest'
  assume "regexp_exec r s = Some x2" "(m, rest) = x2" "m = whole # x22" "rest = c # rest'"
  then have "regexp_exec r s = Some (m, c # rest')" by simp
  from regexp_exec_length [OF this]
  show "((r, rest'), (r, s)) \<in> measure (\<lambda>(r, s). length s)" by simp
next
  fix r :: regex and s :: string and x2 m rest whole x22
  assume "regexp_exec r s = Some x2" "(m, rest) = x2" "m = whole # x22" "whole \<noteq> []"
  then have e: "regexp_exec r s = Some (whole # x22, rest)" by simp
  from regexp_exec_split [OF e] obtain pre where "s = pre @ whole @ rest" by auto
  then have "length s = length pre + length whole + length rest" by simp
  with \<open>whole \<noteq> []\<close> show "((r, rest), (r, s)) \<in> measure (\<lambda>(r, s). length s)"
    by (cases whole) simp_all
qed

declare match_all.simps [simp del]

definition js_match_g :: "regex \<Rightarrow> string \<Rightarrow> string list option" where
  "js_match_g r s = (case match_all r s of [] \<Rightarrow> None | m # ms \<Rightarrow> Some (m # ms))"

text \<open>
  The decimal digits, the white space of \<^verbatim>\<open>\\s\<close> and of \<^verbatim>\<open>trim\<close> (tab, line feed,
  vertical tab, form feed, carriage return, space, no-break space) and the letters.
\<close>

definition digit :: string where
  "digit = ''0123456789''"

definition space :: string where
  "space = [CHR 0x09, CHR 0x0A, CHR 0x0B, CHR 0x0C, CHR 0x0D, CHR 0x20, CHR 0xA0]"

definition az :: string where
  "az = ''abcdefghijklmnopqrstuvwxyz''"

section \<open>Numbers\<close>

text \<open>
  A JavaScript number is an IEEE 754 double. \<open>Fin m e\<close> is the finite double of value
  \<open>m * 2 ^ e\<close>; an integer of magnitude up to \<open>2 ^ 53\<close> is always \<open>Fin m 0\<close>.
\<close>

datatype number = NaN | PosInf | NegInf | NegZero | Fin int int

text \<open>The number of binary digits of a positive integer.\<close>

function bits :: "int \<Rightarrow> int" where
  "bits a = (if a \<le> 0 then 0 else 1 + bits (a div 2))"
  by pat_completeness auto
termination
  by (relation "measure nat") auto

declare bits.simps [simp del]

text \<open>\<open>p / r\<close> rounded to an integer, a tie to the even one (\<open>0 \<le> p\<close>, \<open>0 < r\<close>).\<close>

definition round_half_even :: "int \<Rightarrow> int \<Rightarrow> int" where
  "round_half_even p r =
     (let q = p div r; m = p mod r
      in if 2 * m < r then q else if r < 2 * m then q + 1
         else if even q then q else q + 1)"

text \<open>
  The power of two at or below the fraction: \<open>\<lfloor>log\<^sub>2 (a / r)\<rfloor>\<close> for positive \<open>a\<close> and \<open>r\<close>.
\<close>

definition floor_log2 :: "int \<Rightarrow> int \<Rightarrow> int" where
  "floor_log2 a r =
     (let e0 = bits a - bits r
      in if (if 0 \<le> e0 then r * 2 ^ nat e0 \<le> a else r \<le> a * 2 ^ nat (- e0))
         then e0 else e0 - 1)"

text \<open>
  The double nearest to the fraction \<open>p / r\<close> (\<open>0 < r\<close>), ties to the even mantissa: 53
  binary digits for a normal number, fewer below \<open>2 ^ (-1022)\<close>, an infinity from
  \<open>2 ^ 1024\<close> on, and a zero with the sign of the fraction when it is too small.
\<close>

definition to_double :: "int \<Rightarrow> int \<Rightarrow> number" where
  "to_double p r =
     (if p = 0 then Fin 0 0
      else if p mod r = 0 \<and> \<bar>p div r\<bar> \<le> 2 ^ 53 then Fin (p div r) 0
      else
        (let a = \<bar>p\<bar>;
             e = max (floor_log2 a r) (- 1022);
             k = (if e \<le> 52 then round_half_even (a * 2 ^ nat (52 - e)) r
                  else round_half_even a (r * 2 ^ nat (e - 52)))
         in if k = 0 then (if p < 0 then NegZero else Fin 0 0)
            else if e \<le> 52 then Fin (if p < 0 then - k else k) (e - 52)
            else if 2 ^ 1024 \<le> k * 2 ^ nat (e - 52) then (if p < 0 then NegInf else PosInf)
            else Fin (if p < 0 then - k else k) (e - 52)))"

text \<open>The value of a finite number as a fraction with a positive denominator.\<close>

definition fraction :: "int \<Rightarrow> int \<Rightarrow> int \<times> int" where
  "fraction m e = (if 0 \<le> e then (m * 2 ^ nat e, 1) else (m, 2 ^ nat (- e)))"

text \<open>\<open>x * c\<close> for a positive integer constant \<open>c\<close>.\<close>

definition times_const :: "number \<Rightarrow> int \<Rightarrow> number" where
  "times_const x c =
     (case x of
        Fin m e \<Rightarrow> (case fraction m e of (p, r) \<Rightarrow> to_double (p * c) r)
      | _ \<Rightarrow> x)"

text \<open>\<open>t - x\<close> for an integer \<open>t\<close> of magnitude up to \<open>2 ^ 53\<close>.\<close>

definition minus_from :: "int \<Rightarrow> number \<Rightarrow> number" where
  "minus_from t x =
     (case x of
        NaN \<Rightarrow> NaN
      | PosInf \<Rightarrow> NegInf
      | NegInf \<Rightarrow> PosInf
      | NegZero \<Rightarrow> Fin t 0
      | Fin m e \<Rightarrow> (case fraction m e of (p, r) \<Rightarrow> to_double (t * r - p) r))"

text \<open>\<open>n / x\<close> for a length \<open>n\<close>.\<close>

definition divide_length :: "nat \<Rightarrow> number \<Rightarrow> number" where
  "divide_length n x =
     (case x of
        NaN \<Rightarrow> NaN
      | PosInf \<Rightarrow> Fin 0 0
      | NegInf \<Rightarrow> NegZero
      | NegZero \<Rightarrow> if n = 0 then NaN else NegInf
      | Fin m e \<Rightarrow>
          if m = 0 then (if n = 0 then NaN else PosInf)
          else if n = 0 then (if m < 0 then NegZero else Fin 0 0)
          else (case fraction m e of
                  (p, r) \<Rightarrow> if 0 < p then to_double (int n * r) p
                            else to_double (- (int n * r)) (- p)))"


text \<open>
  \<^verbatim>\<open>parseInt(string)\<close> with no radix: white space is skipped, then a sign, then
  \<^verbatim>\<open>0x\<close> or \<^verbatim>\<open>0X\<close> makes the radix 16; the digits up to the first other character
  are read, and without a digit the result is NaN. The integer read is rounded to a double.
\<close>

definition hex_digits :: string where
  "hex_digits = ''0123456789abcdef''"

definition digit_value :: "string \<Rightarrow> char \<Rightarrow> int" where
  "digit_value ds c = int (length (takeWhile (\<lambda>d. d \<noteq> lower_char c) ds))"

definition read_digits :: "string \<Rightarrow> string \<Rightarrow> number" where
  "read_digits ds s =
     (case takeWhile (\<lambda>c. lower_char c \<in> set ds) s of
        [] \<Rightarrow> NaN
      | z # zs \<Rightarrow>
          to_double (foldl (\<lambda>n c. n * int (length ds) + digit_value ds c) 0 (z # zs)) 1)"

definition strip_prefix :: "string \<Rightarrow> number" where
  "strip_prefix s =
     (case s of
        c # x # rest \<Rightarrow>
          if c = CHR ''0'' \<and> (x = CHR ''x'' \<or> x = CHR ''X'') then read_digits hex_digits rest
          else read_digits digit s
      | _ \<Rightarrow> read_digits digit s)"

definition negate :: "number \<Rightarrow> number" where
  "negate x =
     (case x of
        NaN \<Rightarrow> NaN | PosInf \<Rightarrow> NegInf | NegInf \<Rightarrow> PosInf | NegZero \<Rightarrow> Fin 0 0
      | Fin m e \<Rightarrow> if m = 0 then NegZero else Fin (- m) e)"

definition parseInt :: "string \<Rightarrow> number" where
  "parseInt str =
     (case dropWhile (\<lambda>c. c \<in> set space) str of
        [] \<Rightarrow> NaN
      | c # rest \<Rightarrow>
          if c = CHR ''-'' then negate (strip_prefix rest)
          else if c = CHR ''+'' then strip_prefix rest
          else strip_prefix (c # rest))"

section \<open>The interpreter: processInput\<close>

datatype category = Event | Issue | Delay | Quality

datatype severity = Low | Medium | High

text \<open>
  \<^verbatim>\<open>extracted_metrics\<close> is an object whose keys exist only when their pattern matched:
  a field is \<open>None\<close> when the key is absent.
\<close>

record metrics =
  duration :: "string option"
  temperature :: "string option"
  voltage :: "string option"
  quantity :: "number option"

record annotation =
  category :: category
  severity :: severity
  entities :: "string list"
  extracted_metrics :: metrics

fun alts :: "string list \<Rightarrow> regex" where
  "alts [] = Lit []"
| "alts [w] = Lit w"
| "alts (w # ws) = Alt (Lit w) (alts ws)"

definition componentPatterns :: "regex list" where
  "componentPatterns =
     [alts [''motor'', ''pcb'', ''board'', ''circuit'', ''sensor'', ''controller'', ''relay'',
            ''switch'', ''battery'', ''capacitor''],
      Seq (Lit ''version'') (Seq (Plus space) (Plus digit)),
      Seq (Lit ''node'') (Seq (Plus space) (Cls az))]"

definition vendorPattern :: regex where
  "vendorPattern = Seq (Lit ''vendor'') (Seq (Plus space) (Group (Plus (az @ digit))))"

definition timePattern :: regex where
  "timePattern =
     Seq (Group (Plus digit))
       (Seq (Star space)
         (Seq (Group (alts [''hour'', ''minute'', ''day'', ''week''])) (Opt (Lit ''s''))))"

definition tempPattern :: regex where
  "tempPattern =
     Seq (Group (Plus digit))
       (Seq (Star space) (Group (alts [''degree'', [CHR 0xB0], ''celsius'', ''fahrenheit''])))"

definition voltagePattern :: regex where
  "voltagePattern =
     Seq (Group (Seq (Plus digit) (Seq (Opt (Lit ''.'')) (Star digit))))
       (Seq (Star space) (Group (alts [''v'', ''volt'', ''voltage''])))"

definition countPattern :: regex where
  "countPattern =
     Seq (Group (Plus digit))
       (Seq (Star space)
         (Seq (Group (alts [''unit'', ''piece'', ''item''])) (Opt (Lit ''s''))))"

text \<open>
  The number a string of decimal digits denotes. \<^verbatim>\<open>timeMatch[1] > 1\<close> converts the
  captured digits to a number before it compares; the conversion rounds to a double, which
  never moves a value across 1, so the comparison is that of the exact numbers.
\<close>

definition digit_val :: "char \<Rightarrow> nat" where
  "digit_val c = length (takeWhile (\<lambda>d. d \<noteq> c) digit)"

definition to_number :: "string \<Rightarrow> nat" where
  "to_number ds = foldl (\<lambda>n c. 10 * n + digit_val c) 0 ds"

text \<open>
  \<^verbatim>\<open>new Set(entities)\<close> adds the elements one by one and keeps the order of insertion;
  spreading it gives the list back.
\<close>

definition set_add :: "string list \<Rightarrow> string \<Rightarrow> string list" where
  "set_add acc x = (if x \<in> set acc then acc else acc @ [x])"

definition new_Set :: "string list \<Rightarrow> string list" where
  "new_Set xs = foldl set_add [] xs"

text \<open>
  \<^verbatim>\<open>matches\<close> is null or the list of matches; \<^verbatim>\<open>if (matches) entities.push(...matches)\<close>
  appends the list when there is one.
\<close>

definition push_matches :: "string list \<Rightarrow> string list option \<Rightarrow> string list" where
  "push_matches es m = (case m of None \<Rightarrow> es | Some ms \<Rightarrow> es @ ms)"

definition classify_category :: "string \<Rightarrow> category" where
  "classify_category input =
     (if includes_str input ''fail'' \<or> includes_str input ''error''
         \<or> includes_str input ''overheat'' \<or> includes_str input ''crash''
         \<or> includes_str input ''malfunction'' then Issue
      else if includes_str input ''delay'' \<or> includes_str input ''late''
         \<or> includes_str input ''postpone'' then Delay
      else if includes_str input ''qa'' \<or> includes_str input ''quality''
         \<or> includes_str input ''defect'' \<or> includes_str input ''inspection'' then Quality
      else Event)"

definition detect_severity :: "string \<Rightarrow> severity" where
  "detect_severity input =
     (if includes_str input ''critical'' \<or> includes_str input ''urgent''
         \<or> includes_str input ''emergency'' \<or> includes_str input ''severe'' then High
      else if includes_str input ''important'' \<or> includes_str input ''significant''
         \<or> includes_str input ''major'' then Medium
      else Low)"

definition extract_entities :: "string \<Rightarrow> string list" where
  "extract_entities rawInput =
     (let entities = foldl (\<lambda>es pattern. push_matches es (js_match_g pattern rawInput))
                       [] componentPatterns
      in push_matches entities (js_match_g vendorPattern rawInput))"

definition extract_duration :: "string \<Rightarrow> string option" where
  "extract_duration rawInput =
     (case js_match timePattern rawInput of
        Some [_, n, unit] \<Rightarrow> Some (n @ '' '' @ unit @ (if 1 < to_number n then ''s'' else []))
      | _ \<Rightarrow> None)"

definition extract_temperature :: "string \<Rightarrow> string option" where
  "extract_temperature rawInput =
     (case js_match tempPattern rawInput of
        Some [_, n, _] \<Rightarrow> Some (n @ [CHR 0xB0])
      | _ \<Rightarrow> None)"

definition extract_voltage :: "string \<Rightarrow> string option" where
  "extract_voltage rawInput =
     (case js_match voltagePattern rawInput of
        Some [_, n, _] \<Rightarrow> Some (n @ ''V'')
      | _ \<Rightarrow> None)"

definition extract_quantity :: "string \<Rightarrow> number option" where
  "extract_quantity rawInput =
     (case js_match countPattern rawInput of
        Some [_, n, _] \<Rightarrow> Some (parseInt n)
      | _ \<Rightarrow> None)"

definition processInput :: "string \<Rightarrow> annotation" where
  "processInput rawInput =
     (let input = toLowerCase rawInput
      in \<lparr>category = classify_category input,
          severity = detect_severity input,
          entities = new_Set (extract_entities rawInput),
          extracted_metrics =
            \<lparr>duration = extract_duration rawInput,
             temperature = extract_temperature rawInput,
             voltage = extract_voltage rawInput,
             quantity = extract_quantity rawInput\<rparr>\<rparr>)"

section \<open>Classification\<close>

text \<open>Substring containment, stated without an algorithm: \<open>k\<close> occurs somewhere in \<open>s\<close>.\<close>

definition occurs_in :: "string \<Rightarrow> string \<Rightarrow> bool" where
  "occurs_in k s = (\<exists>pre post. s = pre @ k @ post)"

lemma starts_with_iff: "starts_with s k \<longleftrightarrow> (\<exists>post. s = k @ post)"
  by (induction s k rule: starts_with.induct) auto

lemma includes_str_iff: "includes_str s k \<longleftrightarrow> occurs_in k s"
proof (induction s)
  case Nil
  show ?case by (auto simp: starts_with_iff occurs_in_def)
next
  case (Cons c cs)
  show ?case
  proof
    assume "includes_str (c # cs) k"
    then consider "starts_with (c # cs) k" | "includes_str cs k" by auto
    then show "occurs_in k (c # cs)"
    proof cases
      case 1
      then obtain post where "c # cs = [] @ k @ post" by (auto simp: starts_with_iff)
      then show ?thesis unfolding occurs_in_def by blast
    next
      case 2
      with Cons obtain pre post where "cs = pre @ k @ post" by (auto simp: occurs_in_def)
      then have "c # cs = (c # pre) @ k @ post" by simp
      then show ?thesis unfolding occurs_in_def by blast
    qed
  next
    assume "occurs_in k (c # cs)"
    then obtain pre post where d: "c # cs = pre @ k @ post" by (auto simp: occurs_in_def)
    show "includes_str (c # cs) k"
    proof (cases pre)
      case Nil
      with d have "starts_with (c # cs) k" unfolding starts_with_iff by auto
      then show ?thesis by simp
    next
      case (Cons p ps)
      with d have "cs = ps @ k @ post" by simp
      then have "occurs_in k cs" unfolding occurs_in_def by blast
      with Cons.IH show ?thesis by simp
    qed
  qed
qed

lemma toLowerCase_eval:
  "toLowerCase [] = []"
  "toLowerCase (c # cs) = lower_char c # toLowerCase cs"
  by (simp_all add: toLowerCase_def)

text \<open>
  C4. The category is decided by keyword groups in a fixed order, on the lower-cased text and
  by substring containment: issue when one of fail, error, overheat, crash, malfunction
  occurs; otherwise delay when one of delay, late, postpone occurs; otherwise quality when
  one of qa, quality, defect, inspection occurs; otherwise event. A text with an issue
  keyword is an issue whatever else it contains.
\<close>

theorem category_priority:
  "category (processInput s) =
     (if \<exists>k \<in> set [''fail'', ''error'', ''overheat'', ''crash'', ''malfunction''].
           occurs_in k (toLowerCase s) then Issue
      else if \<exists>k \<in> set [''delay'', ''late'', ''postpone''].
           occurs_in k (toLowerCase s) then Delay
      else if \<exists>k \<in> set [''qa'', ''quality'', ''defect'', ''inspection''].
           occurs_in k (toLowerCase s) then Quality
      else Event)"
  by (simp add: processInput_def classify_category_def includes_str_iff)

theorem category_priority_witness:
  "occurs_in ''fail'' (toLowerCase ''Motor FAILURE causing delay'')
   \<and> occurs_in ''delay'' (toLowerCase ''Motor FAILURE causing delay'')
   \<and> category (processInput ''Motor FAILURE causing delay'') = Issue"
proof -
  have l: "toLowerCase ''Motor FAILURE causing delay'' = ''motor failure causing delay''"
    by (simp add: toLowerCase_eval lower_char_def upper_letters_def lower_letters_def)
  have "''motor failure causing delay'' = ''motor '' @ ''fail'' @ ''ure causing delay''"
    by simp
  then have f: "occurs_in ''fail'' (toLowerCase ''Motor FAILURE causing delay'')"
    unfolding occurs_in_def l by blast
  have "''motor failure causing delay'' = ''motor failure causing '' @ ''delay'' @ []"
    by simp
  then have d: "occurs_in ''delay'' (toLowerCase ''Motor FAILURE causing delay'')"
    unfolding occurs_in_def l by blast
  from f have "category (processInput ''Motor FAILURE causing delay'') = Issue"
    using category_priority [of "''Motor FAILURE causing delay''"] by simp
  with f d show ?thesis by simp
qed

text \<open>
  C5. The severity is high when the lower-cased text contains one of critical, urgent,
  emergency, severe; otherwise medium when it contains one of important, significant,
  major; otherwise low.
\<close>

theorem severity_priority:
  "severity (processInput s) =
     (if \<exists>k \<in> set [''critical'', ''urgent'', ''emergency'', ''severe''].
           occurs_in k (toLowerCase s) then High
      else if \<exists>k \<in> set [''important'', ''significant'', ''major''].
           occurs_in k (toLowerCase s) then Medium
      else Low)"
  by (simp add: processInput_def detect_severity_def includes_str_iff)

theorem severity_priority_witness:
  "occurs_in ''urgent'' (toLowerCase ''URGENT: major leak'')
   \<and> occurs_in ''major'' (toLowerCase ''URGENT: major leak'')
   \<and> severity (processInput ''URGENT: major leak'') = High"
proof -
  have l: "toLowerCase ''URGENT: major leak'' = ''urgent: major leak''"
    by (simp add: toLowerCase_eval lower_char_def upper_letters_def lower_letters_def)
  have "''urgent: major leak'' = [] @ ''urgent'' @ '': major leak''" by simp
  then have u: "occurs_in ''urgent'' (toLowerCase ''URGENT: major leak'')"
    unfolding occurs_in_def l by blast
  have "''urgent: major leak'' = ''urgent: '' @ ''major'' @ '' leak''" by simp
  then have m: "occurs_in ''major'' (toLowerCase ''URGENT: major leak'')"
    unfolding occurs_in_def l by blast
  from u have "severity (processInput ''URGENT: major leak'') = High"
    using severity_priority [of "''URGENT: major leak''"] by simp
  with u m show ?thesis by simp
qed

section \<open>Records and the aggregator\<close>

text \<open>
  A stored entry is the annotation of its text together with an identifier, the trimmed text
  and the time of creation as an ISO string.
\<close>

record entry = annotation +
  entry_id :: string
  raw_input :: string
  timestamp :: string

text \<open>
  A JavaScript object used as a counter table: the keys in the order of their first
  insertion, each with its value. (None of the keys the server uses is an array index, the
  only keys an object would reorder, or a property of \<^verbatim>\<open>Object.prototype\<close>.)
\<close>

fun obj_set :: "('k \<times> 'v) list \<Rightarrow> 'k \<Rightarrow> 'v \<Rightarrow> ('k \<times> 'v) list" where
  "obj_set [] k v = [(k, v)]"
| "obj_set ((k', v') # kvs) k v =
     (if k' = k then (k, v) # kvs else (k', v') # obj_set kvs k v)"

text \<open>\<^verbatim>\<open>obj[k] = (obj[k] || 0) + 1\<close>\<close>

definition increment :: "('k \<times> nat) list \<Rightarrow> 'k \<Rightarrow> ('k \<times> nat) list" where
  "increment obj k = obj_set obj k ((case map_of obj k of None \<Rightarrow> 0 | Some n \<Rightarrow> n) + 1)"

record trend_point =
  date :: string
  count :: nat

record analytics =
  total :: nat
  by_category :: "(category \<times> nat) list"
  by_severity :: "(severity \<times> nat) list"
  recent_trend :: "trend_point list"
  top_entities :: "(string \<times> nat) list"

datatype js_error = RangeError

text \<open>
  Dates. A time value is a number of milliseconds from the epoch, in UTC. The civil date of
  a day number is the date of the proleptic Gregorian calendar that ECMAScript's
  \<^verbatim>\<open>YearFromTime\<close>, \<^verbatim>\<open>MonthFromTime\<close> and \<^verbatim>\<open>DateFromTime\<close> give, computed in closed
  form over 400-year eras that begin on 1 March. \<^verbatim>\<open>toISOString\<close> writes the year with four
  digits from 0 to 9999 and with a sign and six digits otherwise.
\<close>

definition msPerDay :: int where
  "msPerDay = 24 * 60 * 60 * 1000"

definition civil_from_days :: "int \<Rightarrow> int \<times> int \<times> int" where
  "civil_from_days day =
     (let z = day + 719468;
          era = z div 146097;
          doe = z mod 146097;
          yoe = (doe - doe div 1460 + doe div 36524 - doe div 146096) div 365;
          doy = doe - (365 * yoe + yoe div 4 - yoe div 100);
          mp = (5 * doy + 2) div 153;
          d = doy - (153 * mp + 2) div 5 + 1;
          m = (if mp < 10 then mp + 3 else mp - 9);
          y = yoe + era * 400
      in (if m \<le> 2 then y + 1 else y, m, d))"

fun pad :: "nat \<Rightarrow> nat \<Rightarrow> string" where
  "pad 0 k = []"
| "pad (Suc n) k = pad n (k div 10) @ [digit ! (k mod 10)]"

definition year_string :: "int \<Rightarrow> string" where
  "year_string y =
     (if 0 \<le> y \<and> y \<le> 9999 then pad 4 (nat y)
      else (if y < 0 then ''-'' else ''+'') @ pad 6 (nat \<bar>y\<bar>))"

definition iso_date :: "int \<Rightarrow> string" where
  "iso_date day =
     (case civil_from_days day of
        (y, m, d) \<Rightarrow> year_string y @ ''-'' @ pad 2 (nat m) @ ''-'' @ pad 2 (nat d))"

definition iso_time :: "int \<Rightarrow> string" where
  "iso_time ms =
     pad 2 (nat (ms div 3600000)) @ '':'' @ pad 2 (nat (ms div 60000 mod 60)) @ '':'' @
     pad 2 (nat (ms div 1000 mod 60)) @ ''.'' @ pad 3 (nat (ms mod 1000))"

definition iso_string :: "int \<Rightarrow> string" where
  "iso_string t = iso_date (t div msPerDay) @ ''T'' @ iso_time (t mod msPerDay) @ ''Z''"



text \<open>
  A \<^verbatim>\<open>Date\<close> holds a time value, or NaN (\<open>None\<close>) when the number it was made from is
  NaN or beyond 8.64e15 milliseconds from the epoch. \<^verbatim>\<open>toISOString\<close> of such a date throws
  a RangeError.
\<close>

definition new_Date :: "int option \<Rightarrow> int option" where
  "new_Date v =
     (case v of
        None \<Rightarrow> None
      | Some t \<Rightarrow> if \<bar>t\<bar> \<le> 8640000000000000 then Some t else None)"

definition toISOString :: "int option \<Rightarrow> js_error + string" where
  "toISOString d = (case d of None \<Rightarrow> Inl RangeError | Some t \<Rightarrow> Inr (iso_string t))"

text \<open>\<^verbatim>\<open>s.split('T')[0]\<close>: the text before the first \<^verbatim>\<open>T\<close>, all of \<open>s\<close> without one.\<close>

definition split_T_0 :: "string \<Rightarrow> string" where
  "split_T_0 s = takeWhile (\<lambda>c. c \<noteq> CHR ''T'') s"

definition tally ::
    "entry list \<Rightarrow> (category \<times> nat) list \<times> (severity \<times> nat) list" where
  "tally entries =
     foldl (\<lambda>(bc, bs) e. (increment bc (category e), increment bs (severity e)))
       ([], []) entries"

text \<open>
  The loop \<^verbatim>\<open>for (let i = 0; i < 7; i++)\<close> over the days from \<^verbatim>\<open>sevenDaysAgo\<close>; an
  exception leaves the loop and the handler.
\<close>

function trend_loop ::
    "int option \<Rightarrow> entry list \<Rightarrow> nat \<Rightarrow> trend_point list \<Rightarrow> js_error + trend_point list" where
  "trend_loop sevenDaysAgo entries i acc =
     (if i < 7 then
        (case toISOString
                (new_Date (map_option (\<lambda>t. t + int i * (24 * 60 * 60 * 1000)) sevenDaysAgo)) of
           Inl err \<Rightarrow> Inl err
         | Inr isoStr \<Rightarrow>
             (let dateStr = split_T_0 isoStr;
                  n = length (filter (\<lambda>e. split_T_0 (timestamp e) = dateStr) entries)
              in trend_loop sevenDaysAgo entries (i + 1) (acc @ [\<lparr>date = dateStr, count = n\<rparr>])))
      else Inr acc)"
  by pat_completeness auto
termination
  by (relation "measure (\<lambda>(s, es, i, acc). 7 - i)") auto

declare trend_loop.simps [simp del]

definition entity_counts :: "entry list \<Rightarrow> (string \<times> nat) list" where
  "entity_counts entries = foldl (\<lambda>ec e. foldl increment ec (entities e)) [] entries"

text \<open>
  \<^verbatim>\<open>Object.entries(entityCounts).sort((a, b) => b[1] - a[1]).slice(0, 10)\<close>, folded back
  into an object. The sort is stable.
\<close>

definition top_ten :: "(string \<times> nat) list \<Rightarrow> (string \<times> nat) list" where
  "top_ten ec =
     foldl (\<lambda>obj (key, val). obj_set obj key val) []
       (take 10 (sort_key (\<lambda>(key, val). - int val) ec))"

definition get_analytics :: "int \<Rightarrow> entry list \<Rightarrow> js_error + analytics" where
  "get_analytics now entries =
     (case tally entries of
        (bc, bs) \<Rightarrow>
          (let sevenDaysAgo = new_Date (Some (now - 7 * 24 * 60 * 60 * 1000))
           in case trend_loop sevenDaysAgo entries 0 [] of
                Inl err \<Rightarrow> Inl err
              | Inr trend \<Rightarrow>
                  Inr \<lparr>total = length entries, by_category = bc, by_severity = bs,
                       recent_trend = trend, top_entities = top_ten (entity_counts entries)\<rparr>))"

section \<open>Properties of the aggregator\<close>

lemma map_of_obj_set: "map_of (obj_set obj k v) = (map_of obj)(k \<mapsto> v)"
  by (induction obj) (auto simp: fun_eq_iff)

lemma keys_obj_set:
  "map fst (obj_set obj k v) = (if k \<in> set (map fst obj) then map fst obj else map fst obj @ [k])"
  by (induction obj) force+

lemma distinct_obj_set: "distinct (map fst obj) \<Longrightarrow> distinct (map fst (obj_set obj k v))"
  by (simp add: keys_obj_set)

lemma sum_obj_set:
  "distinct (map fst obj) \<Longrightarrow>
   sum_list (map snd (obj_set obj k v)) + (case map_of obj k of None \<Rightarrow> 0 | Some n \<Rightarrow> n)
     = sum_list (map snd obj) + (v :: nat)"
proof (induction obj)
  case Nil
  show ?case by simp
next
  case (Cons p obj)
  obtain k' v' where p: "p = (k', v')" by (cases p)
  show ?case
  proof (cases "k' = k")
    case True
    with Cons.prems p have "map_of obj k = None" 
      by (simp add: map_of_eq_None_iff image_iff)
    with True p show ?thesis by simp
  next
    case False
    with Cons p show ?thesis by simp
  qed
qed

lemma sum_increment:
  "distinct (map fst obj) \<Longrightarrow> sum_list (map snd (increment obj k)) = sum_list (map snd obj) + 1"
  using sum_obj_set [of obj k "(case map_of obj k of None \<Rightarrow> 0 | Some n \<Rightarrow> n) + 1"]
  by (simp add: increment_def)

lemma distinct_increment: "distinct (map fst obj) \<Longrightarrow> distinct (map fst (increment obj k))"
  by (simp add: increment_def distinct_obj_set)

text \<open>The count an object holds for a key, 0 for a key it does not have.\<close>

definition lookup0 :: "('k \<times> nat) list \<Rightarrow> 'k \<Rightarrow> nat" where
  "lookup0 obj k = (case map_of obj k of None \<Rightarrow> 0 | Some n \<Rightarrow> n)"

lemma lookup0_increment:
  "lookup0 (increment obj k) k' = (if k' = k then lookup0 obj k + 1 else lookup0 obj k')"
  by (simp add: lookup0_def increment_def map_of_obj_set)

text \<open>Counting one key per element of a list.\<close>

lemma count_keys:
  "distinct (map fst obj) \<Longrightarrow>
   distinct (map fst (foldl (\<lambda>ob x. increment ob (f x)) obj xs))
   \<and> sum_list (map snd (foldl (\<lambda>ob x. increment ob (f x)) obj xs))
       = sum_list (map snd obj) + length xs
   \<and> (\<forall>k. lookup0 (foldl (\<lambda>ob x. increment ob (f x)) obj xs) k
          = lookup0 obj k + length (filter (\<lambda>x. f x = k) xs))"
proof (induction xs arbitrary: obj)
  case Nil
  then show ?case by simp
next
  case (Cons x xs)
  from Cons.prems have d: "distinct (map fst (increment obj (f x)))"
    by (rule distinct_increment)
  from Cons.IH [OF d] Cons.prems show ?case
    by (auto simp: sum_increment lookup0_increment)
qed

lemma tally_split:
  "foldl (\<lambda>(bc, bs) e. (increment bc (category e), increment bs (severity e))) (bc, bs) es
   = (foldl (\<lambda>ob e. increment ob (category e)) bc es,
      foldl (\<lambda>ob e. increment ob (severity e)) bs es)"
  by (induction es arbitrary: bc bs) simp_all

lemma tally_eq:
  "tally es = (foldl (\<lambda>ob e. increment ob (category e)) [] es,
               foldl (\<lambda>ob e. increment ob (severity e)) [] es)"
  by (simp add: tally_def tally_split)


text \<open>The date part of an ISO string is the date of its day.\<close>

lemma pad_digits: "set (pad n k) \<subseteq> set digit"
proof (induction n arbitrary: k)
  case 0
  show ?case by simp
next
  case (Suc n)
  have "k mod 10 < length digit" by (simp add: digit_def)
  then have "digit ! (k mod 10) \<in> set digit" by (rule nth_mem)
  with Suc show ?case by auto
qed

lemma length_pad: "length (pad n k) = n"
  by (induction n arbitrary: k) simp_all

lemma pad_no_T: "CHR ''T'' \<notin> set (pad n k)"
proof -
  have "CHR ''T'' \<notin> set digit" by (simp add: digit_def)
  with pad_digits [of n k] show ?thesis by blast
qed

lemma year_string_no_T: "CHR ''T'' \<notin> set (year_string y)"
  by (simp add: year_string_def pad_no_T)

lemma iso_date_no_T: "CHR ''T'' \<notin> set (iso_date day)"
  by (simp add: iso_date_def year_string_no_T pad_no_T split: prod.splits)

lemma split_T_0_iso_string: "split_T_0 (iso_string t) = iso_date (t div msPerDay)"
proof -
  have "\<And>x. x \<in> set (iso_date (t div msPerDay)) \<Longrightarrow> x \<noteq> CHR ''T''"
    using iso_date_no_T by blast
  then show ?thesis
    by (simp add: split_T_0_def iso_string_def)
qed

lemma day_shift: "(t + int j * (24 * 60 * 60 * 1000)) div msPerDay = t div msPerDay + int j"
  by (simp add: msPerDay_def)

text \<open>One bucket of the recent trend: the day \<open>d\<close> and the entries stamped with its date.\<close>

definition bucket :: "entry list \<Rightarrow> int \<Rightarrow> trend_point" where
  "bucket entries d =
     \<lparr>date = iso_date d,
      count = length (filter (\<lambda>e. split_T_0 (timestamp e) = iso_date d) entries)\<rparr>"

lemma trend_loop_valid:
  "i \<le> 7 \<Longrightarrow> - 8640000000000000 \<le> t \<Longrightarrow> t + 6 * (24 * 60 * 60 * 1000) \<le> 8640000000000000 \<Longrightarrow>
   trend_loop (Some t) entries i acc
     = Inr (acc @ map (\<lambda>j. bucket entries (t div msPerDay + int j)) [i..<7])"
proof (induction "Some t" entries i acc rule: trend_loop.induct)
  case (1 entries i acc)
  show ?case
  proof (cases "i < 7")
    case False
    with "1.prems" show ?thesis by (subst trend_loop.simps) simp
  next
    case True
    let ?u = "t + int i * (24 * 60 * 60 * 1000)"
    from True "1.prems" have v: "\<bar>?u\<bar> \<le> 8640000000000000" by simp
    then have iso: "toISOString (new_Date (map_option (\<lambda>t. t + int i * (24 * 60 * 60 * 1000)) (Some t)))
        = Inr (iso_string ?u)"
      by (simp add: toISOString_def new_Date_def)
    let ?b = "bucket entries (t div msPerDay + int i)"
    have b: "\<lparr>date = split_T_0 (iso_string ?u),
             count = length (filter (\<lambda>e. split_T_0 (timestamp e) = split_T_0 (iso_string ?u)) entries)\<rparr> = ?b"
      by (simp add: bucket_def split_T_0_iso_string msPerDay_def add.commute)
    from True have "i + 1 \<le> 7" by simp
    from "1.hyps" [OF True iso refl refl this "1.prems"(2,3)]
    have ih: "trend_loop (Some t) entries (i + 1) (acc @ [?b])
        = Inr ((acc @ [?b]) @ map (\<lambda>j. bucket entries (t div msPerDay + int j)) [i + 1..<7])"
      by (simp only: b)
    have step: "trend_loop (Some t) entries i acc = trend_loop (Some t) entries (i + 1) (acc @ [?b])"
      using True iso b by (subst trend_loop.simps) (simp add: Let_def)
    from True have "[i..<7] = i # [i + 1..<7]" by (simp add: upt_conv_Cons)
    with step ih show ?thesis by simp
  qed
qed

lemma get_analytics_valid:
  assumes "- 8640000000000000 \<le> now - 7 * msPerDay" and "now \<le> 8640000000000000"
  shows "get_analytics now entries =
     Inr \<lparr>total = length entries, by_category = fst (tally entries),
          by_severity = snd (tally entries),
          recent_trend = map (\<lambda>j. bucket entries (now div msPerDay - 7 + int j)) [0..<7],
          top_entities = top_ten (entity_counts entries)\<rparr>"
proof -
  let ?t = "now - 7 * 24 * 60 * 60 * 1000"
  from assms have a: "- 8640000000000000 \<le> ?t" and b: "?t + 6 * (24 * 60 * 60 * 1000) \<le> 8640000000000000"
    by (simp_all add: msPerDay_def)
  from assms have d: "new_Date (Some ?t) = Some ?t"
    by (simp add: new_Date_def msPerDay_def)
  have day: "?t div msPerDay = now div msPerDay - 7" by (simp add: msPerDay_def)
  have "trend_loop (Some ?t) entries 0 [] =
      Inr ([] @ map (\<lambda>j. bucket entries (?t div msPerDay + int j)) [0..<7])"
    using a b by (intro trend_loop_valid) simp_all
  then have "trend_loop (new_Date (Some ?t)) entries 0 [] =
      Inr (map (\<lambda>j. bucket entries (now div msPerDay - 7 + int j)) [0..<7])"
    by (simp only: d day append_Nil)
  then show ?thesis
    by (simp add: get_analytics_def split: prod.splits)
qed

lemma upt_7: "[0..<7] = [0, 1, 2, 3, 4, 5, 6]"
  by (simp add: upt_conv_Cons)

text \<open>Three stored entries, for evaluating the aggregator.\<close>

definition example_entries :: "entry list" where
  "example_entries =
     [\<lparr>category = Issue, severity = High, entities = [''Motor'', ''vendor X''],
       extracted_metrics = \<lparr>duration = Some ''3 hours'', temperature = None, voltage = None,
                               quantity = None\<rparr>,
       entry_id = ''e1'', raw_input = ''Urgent: Motor of vendor X overheating after 3 hours'',
       timestamp = ''2023-11-14T22:13:20.000Z''\<rparr>,
      \<lparr>category = Delay, severity = Low, entities = [''vendor X''],
       extracted_metrics = \<lparr>duration = None, temperature = None, voltage = None,
                               quantity = None\<rparr>,
       entry_id = ''e2'', raw_input = ''Delay in shipment from vendor X'',
       timestamp = ''2023-11-12T08:00:00.000Z''\<rparr>,
      \<lparr>category = Issue, severity = Low, entities = [''sensor''],
       extracted_metrics = \<lparr>duration = None, temperature = None, voltage = None,
                               quantity = None\<rparr>,
       entry_id = ''e3'', raw_input = ''sensor failed'',
       timestamp = ''2023-11-12T09:30:00.000Z''\<rparr>]"

definition example_result :: analytics where
  "example_result =
     \<lparr>total = 3, by_category = [(Issue, 2), (Delay, 1)],
      by_severity = [(High, 1), (Low, 2)],
      recent_trend =
        [\<lparr>date = ''2023-11-07'', count = 0\<rparr>, \<lparr>date = ''2023-11-08'', count = 0\<rparr>,
         \<lparr>date = ''2023-11-09'', count = 0\<rparr>, \<lparr>date = ''2023-11-10'', count = 0\<rparr>,
         \<lparr>date = ''2023-11-11'', count = 0\<rparr>, \<lparr>date = ''2023-11-12'', count = 2\<rparr>,
         \<lparr>date = ''2023-11-13'', count = 0\<rparr>],
      top_entities = [(''vendor X'', 2), (''Motor'', 1), (''sensor'', 1)]\<rparr>"

text \<open>Evaluation on the three entries, a piece at a time.\<close>

lemma pad_numeral: "pad (numeral n) k = pad (pred_numeral n) (k div 10) @ [digit ! (k mod 10)]"
proof -
  have "pad (Suc (pred_numeral n)) k = pad (pred_numeral n) (k div 10) @ [digit ! (k mod 10)]"
    by (rule pad.simps)
  then show ?thesis by (simp only: numeral_eq_Suc [symmetric])
qed

lemma example_civil:
  "civil_from_days 19668 = (2023, 11, 7)" "civil_from_days 19669 = (2023, 11, 8)"
  "civil_from_days 19670 = (2023, 11, 9)" "civil_from_days 19671 = (2023, 11, 10)"
  "civil_from_days 19672 = (2023, 11, 11)" "civil_from_days 19673 = (2023, 11, 12)"
  "civil_from_days 19674 = (2023, 11, 13)" "civil_from_days 19675 = (2023, 11, 14)"
  by code_simp+

lemma example_dates:
  "iso_date 19668 = ''2023-11-07''" "iso_date 19669 = ''2023-11-08''"
  "iso_date 19670 = ''2023-11-09''" "iso_date 19671 = ''2023-11-10''"
  "iso_date 19672 = ''2023-11-11''" "iso_date 19673 = ''2023-11-12''"
  "iso_date 19674 = ''2023-11-13''" "iso_date 19675 = ''2023-11-14''"
  by (simp_all add: iso_date_def example_civil year_string_def pad_numeral digit_def)

lemma example_buckets:
  "bucket example_entries 19668 = \<lparr>date = ''2023-11-07'', count = 0\<rparr>"
  "bucket example_entries 19669 = \<lparr>date = ''2023-11-08'', count = 0\<rparr>"
  "bucket example_entries 19670 = \<lparr>date = ''2023-11-09'', count = 0\<rparr>"
  "bucket example_entries 19671 = \<lparr>date = ''2023-11-10'', count = 0\<rparr>"
  "bucket example_entries 19672 = \<lparr>date = ''2023-11-11'', count = 0\<rparr>"
  "bucket example_entries 19673 = \<lparr>date = ''2023-11-12'', count = 2\<rparr>"
  "bucket example_entries 19674 = \<lparr>date = ''2023-11-13'', count = 0\<rparr>"
  by (simp_all add: bucket_def example_dates example_entries_def split_T_0_def)

lemma example_tally: "tally example_entries = ([(Issue, 2), (Delay, 1)], [(High, 1), (Low, 2)])"
  by (simp add: tally_def example_entries_def increment_def)
lemma example_top: "top_ten (entity_counts example_entries) = [(''vendor X'', 2), (''Motor'', 1), (''sensor'', 1)]"
  by (simp add: top_ten_def entity_counts_def example_entries_def increment_def)

lemma example_analytics: "get_analytics 1700000000000 example_entries = Inr example_result"
proof -
  have a: "- 8640000000000000 \<le> 1700000000000 - 7 * msPerDay" by (simp add: msPerDay_def)
  have b: "(1700000000000 :: int) \<le> 8640000000000000" by simp
  have l: "length example_entries = 3" by (simp add: example_entries_def)
  have d: "1700000000000 div msPerDay = 19675" by (simp add: msPerDay_def)
  show ?thesis
    unfolding get_analytics_valid [OF a b] upt_7 example_result_def d
    by (simp add: example_buckets example_tally example_top l)
qed

lemma example_now:
  "iso_string 1700000000000 = ''2023-11-14T22:13:20.000Z''"
  by (simp add: iso_string_def msPerDay_def example_dates iso_time_def pad_numeral digit_def)

text \<open>
  C10. In every analytics result each entry is counted once under its category and once
  under its severity: the counts of \<open>by_category\<close> add up to \<open>total\<close>, and so do the counts
  of \<open>by_severity\<close>; the count of a key is the number of entries that carry it.
\<close>

theorem tally_totals:
  "get_analytics now entries = Inr a \<Longrightarrow>
     total a = length entries
     \<and> sum_list (map snd (by_category a)) = total a
     \<and> sum_list (map snd (by_severity a)) = total a
     \<and> distinct (map fst (by_category a)) \<and> distinct (map fst (by_severity a))
     \<and> (\<forall>c. lookup0 (by_category a) c = length (filter (\<lambda>e. category e = c) entries))
     \<and> (\<forall>v. lookup0 (by_severity a) v = length (filter (\<lambda>e. severity e = v) entries))"
proof -
  assume g: "get_analytics now entries = Inr a"
  have c: "by_category a = foldl (\<lambda>ob e. increment ob (category e)) [] entries"
    and s: "by_severity a = foldl (\<lambda>ob e. increment ob (severity e)) [] entries"
    and t: "total a = length entries"
    using g by (auto simp: get_analytics_def tally_eq Let_def split: sum.splits)
  from count_keys [of "[]" category entries] count_keys [of "[]" severity entries]
  show ?thesis by (simp add: c s t lookup0_def)
qed

theorem tally_totals_witness:
  "get_analytics 1700000000000 example_entries = Inr example_result
   \<and> total example_result = length example_entries
   \<and> sum_list (map snd (by_category example_result)) = total example_result
   \<and> sum_list (map snd (by_severity example_result)) = total example_result"
  using example_analytics tally_totals [OF example_analytics] by simp

text \<open>
  C8. On an empty collection the aggregation returns total 0, empty \<open>by_category\<close>,
  \<open>by_severity\<close> and \<open>top_entities\<close>, and a trend of seven buckets with count 0. It
  raises nothing, for every clock inside the range of time values whose instant seven days
  earlier is inside it too.
\<close>

theorem empty_collection:
  assumes "- 8640000000000000 \<le> now - 7 * msPerDay" and "now \<le> 8640000000000000"
  shows "get_analytics now [] =
     Inr \<lparr>total = 0, by_category = [], by_severity = [],
          recent_trend =
            [\<lparr>date = iso_date (now div msPerDay - 7), count = 0\<rparr>,
             \<lparr>date = iso_date (now div msPerDay - 6), count = 0\<rparr>,
             \<lparr>date = iso_date (now div msPerDay - 5), count = 0\<rparr>,
             \<lparr>date = iso_date (now div msPerDay - 4), count = 0\<rparr>,
             \<lparr>date = iso_date (now div msPerDay - 3), count = 0\<rparr>,
             \<lparr>date = iso_date (now div msPerDay - 2), count = 0\<rparr>,
             \<lparr>date = iso_date (now div msPerDay - 1), count = 0\<rparr>],
          top_entities = []\<rparr>"
  using get_analytics_valid [OF assms, of "[]"]
  by (simp add: upt_7 bucket_def tally_def entity_counts_def top_ten_def)

theorem empty_collection_witness:
  "- 8640000000000000 \<le> 1700000000000 - 7 * msPerDay \<and> (1700000000000 :: int) \<le> 8640000000000000
   \<and> get_analytics 1700000000000 [] =
     Inr \<lparr>total = 0, by_category = [], by_severity = [],
          recent_trend =
            [\<lparr>date = iso_date (1700000000000 div msPerDay - 7), count = 0\<rparr>,
             \<lparr>date = iso_date (1700000000000 div msPerDay - 6), count = 0\<rparr>,
             \<lparr>date = iso_date (1700000000000 div msPerDay - 5), count = 0\<rparr>,
             \<lparr>date = iso_date (1700000000000 div msPerDay - 4), count = 0\<rparr>,
             \<lparr>date = iso_date (1700000000000 div msPerDay - 3), count = 0\<rparr>,
             \<lparr>date = iso_date (1700000000000 div msPerDay - 2), count = 0\<rparr>,
             \<lparr>date = iso_date (1700000000000 div msPerDay - 1), count = 0\<rparr>],
          top_entities = []\<rparr>"
proof -
  have a: "- 8640000000000000 \<le> 1700000000000 - 7 * msPerDay" by (simp add: msPerDay_def)
  have b: "(1700000000000 :: int) \<le> 8640000000000000" by simp
  from a b empty_collection [OF a b] show ?thesis by simp
qed

text \<open>
  What the loop of the recent trend computes: seven buckets, for the seven UTC calendar
  days from the day seven days before now to the day before now's. Each bucket carries the
  ISO date of its day and the number of entries whose timestamp, up to its first
  \<^verbatim>\<open>T\<close>, is that very string; a day without such an entry has count 0.
\<close>

lemma recent_trend_buckets:
  assumes "- 8640000000000000 \<le> now - 7 * msPerDay" and "now \<le> 8640000000000000"
  shows "\<exists>a. get_analytics now entries = Inr a
     \<and> recent_trend a =
         [bucket entries (now div msPerDay - 7), bucket entries (now div msPerDay - 6),
          bucket entries (now div msPerDay - 5), bucket entries (now div msPerDay - 4),
          bucket entries (now div msPerDay - 3), bucket entries (now div msPerDay - 2),
          bucket entries (now div msPerDay - 1)]"
  using get_analytics_valid [OF assms, of entries] by (simp add: upt_7)

lemma recent_trend_buckets_example:
  "- 8640000000000000 \<le> 1700000000000 - 7 * msPerDay \<and> (1700000000000 :: int) \<le> 8640000000000000
   \<and> (\<exists>a. get_analytics 1700000000000 example_entries = Inr a
     \<and> recent_trend a =
         [bucket example_entries (1700000000000 div msPerDay - 7),
          bucket example_entries (1700000000000 div msPerDay - 6),
          bucket example_entries (1700000000000 div msPerDay - 5),
          bucket example_entries (1700000000000 div msPerDay - 4),
          bucket example_entries (1700000000000 div msPerDay - 3),
          bucket example_entries (1700000000000 div msPerDay - 2),
          bucket example_entries (1700000000000 div msPerDay - 1)])"
proof -
  have a: "- 8640000000000000 \<le> 1700000000000 - 7 * msPerDay" by (simp add: msPerDay_def)
  have b: "(1700000000000 :: int) \<le> 8640000000000000" by simp
  from a b recent_trend_buckets [OF a b, of example_entries] show ?thesis by simp
qed

text \<open>
  C1. The recent trend is to hold seven consecutive calendar days that run through now,
  and the source announces the last 7 days. The loop starts seven days before now and takes
  seven steps, so it stops one day short: at the time value 1700000000000, on 2023-11-14,
  the buckets are 2023-11-07 to 2023-11-13, and the first of the three entries, stamped at
  that very instant, is counted in no bucket.
\<close>

theorem recent_trend_stops_before_now:
  "split_T_0 (iso_string 1700000000000) = ''2023-11-14''
   \<and> timestamp (hd example_entries) = iso_string 1700000000000
   \<and> map_sum id (map date \<circ> recent_trend) (get_analytics 1700000000000 example_entries) =
       Inr [''2023-11-07'', ''2023-11-08'', ''2023-11-09'', ''2023-11-10'', ''2023-11-11'',
            ''2023-11-12'', ''2023-11-13'']
   \<and> map_sum id (map count \<circ> recent_trend) (get_analytics 1700000000000 example_entries) =
       Inr [0, 0, 0, 0, 0, 2, 0]"
proof -
  have "timestamp (hd example_entries) = ''2023-11-14T22:13:20.000Z''"
    by (simp add: example_entries_def)
  then show ?thesis
    by (simp add: example_analytics example_result_def example_now split_T_0_def)
qed

section \<open>What the matcher matches\<close>

text \<open>Equality of two texts under the flag \<^verbatim>\<open>i\<close>.\<close>

definition ci_eq :: "string \<Rightarrow> string \<Rightarrow> bool" where
  "ci_eq u w = (map canonicalize u = map canonicalize w)"

text \<open>
  The texts a pattern matches, with the groups they capture, stated without a search order.
\<close>

primrec derives :: "regex \<Rightarrow> string \<Rightarrow> string list \<Rightarrow> bool" where
  "derives (Lit w) u caps = (ci_eq u w \<and> caps = [])"
| "derives (Cls cls) u caps = ((\<exists>c. u = [c] \<and> in_class cls c) \<and> caps = [])"
| "derives (Seq a b) u caps =
     (\<exists>u1 u2 c1 c2. u = u1 @ u2 \<and> caps = c1 @ c2 \<and> derives a u1 c1 \<and> derives b u2 c2)"
| "derives (Alt a b) u caps = (derives a u caps \<or> derives b u caps)"
| "derives (Plus cls) u caps = (u \<noteq> [] \<and> (\<forall>c \<in> set u. in_class cls c) \<and> caps = [])"
| "derives (Star cls) u caps = ((\<forall>c \<in> set u. in_class cls c) \<and> caps = [])"
| "derives (Opt a) u caps = (derives a u caps \<or> (u = [] \<and> caps = []))"
| "derives (Group a) u caps = (\<exists>c. derives a u c \<and> caps = u # c)"

lemma star_cls_set:
  "r \<in> set (star_cls cls s) \<longleftrightarrow> (\<exists>u. s = u @ r \<and> (\<forall>c \<in> set u. in_class cls c))"
proof (induction s)
  case Nil
  show ?case by auto
next
  case (Cons x xs)
  show ?case
  proof
    assume "r \<in> set (star_cls cls (x # xs))"
    then consider "r = x # xs" | "in_class cls x" "r \<in> set (star_cls cls xs)"
      by (auto split: if_splits)
    then show "\<exists>u. x # xs = u @ r \<and> (\<forall>c \<in> set u. in_class cls c)"
    proof cases
      case 1
      then have "x # xs = [] @ r \<and> (\<forall>c \<in> set []. in_class cls c)" by simp
      then show ?thesis by blast
    next
      case 2
      with Cons obtain u where "xs = u @ r" "\<forall>c \<in> set u. in_class cls c" by auto
      with 2 have "x # xs = (x # u) @ r \<and> (\<forall>c \<in> set (x # u). in_class cls c)" by simp
      then show ?thesis by blast
    qed
  next
    assume "\<exists>u. x # xs = u @ r \<and> (\<forall>c \<in> set u. in_class cls c)"
    then obtain u where u: "x # xs = u @ r" "\<forall>c \<in> set u. in_class cls c" by blast
    show "r \<in> set (star_cls cls (x # xs))"
    proof (cases u)
      case Nil
      with u have "r = x # xs" by simp
      then show ?thesis by simp
    next
      case (Cons y ys)
      with u have "xs = ys @ r" "\<forall>c \<in> set ys. in_class cls c" "in_class cls x" by auto
      with Cons.IH show ?thesis by auto
    qed
  qed
qed

lemma take_length_diff: "s = u @ r \<Longrightarrow> take (length s - length r) s = u"
  by simp

lemma run_derives:
  "(caps, r) \<in> set (run re s) \<longleftrightarrow> (\<exists>u. s = u @ r \<and> derives re u caps)"
proof (induction re arbitrary: caps r s)
  case (Lit w)
  show ?case
  proof
    assume "(caps, r) \<in> set (run (Lit w) s)"
    then have l: "length w \<le> length s" and e: "ci_eq (take (length w) s) w"
      and c: "caps = []" and r: "r = drop (length w) s"
      by (auto simp: ci_eq_def split: if_splits)
    from r have "s = take (length w) s @ r" by simp
    with e c show "\<exists>u. s = u @ r \<and> derives (Lit w) u caps" by auto
  next
    assume "\<exists>u. s = u @ r \<and> derives (Lit w) u caps"
    then obtain u where u: "s = u @ r" "ci_eq u w" "caps = []" by auto
    from u(2) have "length u = length w" unfolding ci_eq_def by (metis length_map)
    with u show "(caps, r) \<in> set (run (Lit w) s)" by (simp add: ci_eq_def)
  qed
next
  case (Cls cls)
  show ?case by (cases s) auto
next
  case (Seq a b)
  show ?case
  proof
    assume "(caps, r) \<in> set (run (Seq a b) s)"
    then obtain c1 r1 c2 where a: "(c1, r1) \<in> set (run a s)" and b: "(c2, r) \<in> set (run b r1)"
      and c: "caps = c1 @ c2" by auto
    from a Seq.IH(1) obtain u1 where u1: "s = u1 @ r1" "derives a u1 c1" by blast
    from b Seq.IH(2) obtain u2 where u2: "r1 = u2 @ r" "derives b u2 c2" by blast
    from u1 u2 c have "s = (u1 @ u2) @ r \<and> derives (Seq a b) (u1 @ u2) caps" by auto
    then show "\<exists>u. s = u @ r \<and> derives (Seq a b) u caps" by blast
  next
    assume "\<exists>u. s = u @ r \<and> derives (Seq a b) u caps"
    then obtain u1 u2 c1 c2 where u: "s = (u1 @ u2) @ r" "caps = c1 @ c2"
      "derives a u1 c1" "derives b u2 c2" by auto
    from u(1,3) Seq.IH(1) [of c1 "u2 @ r" s] have a: "(c1, u2 @ r) \<in> set (run a s)" by auto
    from u(4) Seq.IH(2) [of c2 r "u2 @ r"] have b: "(c2, r) \<in> set (run b (u2 @ r))" by auto
    from a b u(2) show "(caps, r) \<in> set (run (Seq a b) s)" by force
  qed
next
  case (Alt a b)
  then show ?case by auto
next
  case (Plus cls)
  show ?case
  proof (cases s)
    case Nil
    then show ?thesis by auto
  next
    case (Cons x xs)
    show ?thesis
    proof
      assume "(caps, r) \<in> set (run (Plus cls) s)"
      with Cons have x: "in_class cls x" and c: "caps = []" and "r \<in> set (star_cls cls xs)"
        by (auto split: if_splits)
      then obtain u where "xs = u @ r" "\<forall>c \<in> set u. in_class cls c"
        by (auto simp: star_cls_set)
      with x c Cons have "s = (x # u) @ r \<and> derives (Plus cls) (x # u) caps" by simp
      then show "\<exists>u. s = u @ r \<and> derives (Plus cls) u caps" by blast
    next
      assume "\<exists>u. s = u @ r \<and> derives (Plus cls) u caps"
      then obtain u where u: "s = u @ r" "u \<noteq> []" "\<forall>c \<in> set u. in_class cls c" "caps = []"
        by auto
      then obtain y ys where y: "u = y # ys" by (cases u) auto
      with u Cons have "x = y" "xs = ys @ r" "\<forall>c \<in> set ys. in_class cls c" "in_class cls x"
        by auto
      then have "r \<in> set (star_cls cls xs)" by (auto simp: star_cls_set)
      with \<open>in_class cls x\<close> u(4) Cons show "(caps, r) \<in> set (run (Plus cls) s)" by auto
    qed
  qed
next
  case (Star cls)
  show ?case by (auto simp: star_cls_set)
next
  case (Opt a)
  then show ?case by auto
next
  case (Group a)
  show ?case
  proof
    assume "(caps, r) \<in> set (run (Group a) s)"
    then obtain c where c: "(c, r) \<in> set (run a s)" "caps = take (length s - length r) s # c"
      by auto
    with Group.IH obtain u where u: "s = u @ r" "derives a u c" by blast
    with c have "caps = u # c" by simp
    with u show "\<exists>u. s = u @ r \<and> derives (Group a) u caps" by auto
  next
    assume "\<exists>u. s = u @ r \<and> derives (Group a) u caps"
    then obtain u c where u: "s = u @ r" "derives a u c" "caps = u # c" by auto
    with Group.IH have "(c, r) \<in> set (run a s)" by blast
    moreover from u have "take (length s - length r) s = u" by simp
    ultimately show "(caps, r) \<in> set (run (Group a) s)" using u(3) by force
  qed
qed

text \<open>The search of \<open>regexp_exec\<close>: the first position with a match, and the head of its results.\<close>

lemma regexp_exec_None: "regexp_exec r s = None \<longleftrightarrow> (\<forall>j \<le> length s. run r (drop j s) = [])"
proof (induction s)
  case Nil
  show ?case by (auto split: list.splits)
next
  case (Cons c cs)
  show ?case
  proof (cases "run r (c # cs)")
    case Nil
    have "(\<forall>j \<le> length (c # cs). run r (drop j (c # cs)) = [])
        \<longleftrightarrow> (\<forall>j \<le> length cs. run r (drop j cs) = [])"
    proof
      assume a: "\<forall>j \<le> length (c # cs). run r (drop j (c # cs)) = []"
      show "\<forall>j \<le> length cs. run r (drop j cs) = []"
      proof (intro allI impI)
        fix j assume "j \<le> length cs"
        with a have "run r (drop (Suc j) (c # cs)) = []" by (metis Suc_le_mono length_Cons)
        then show "run r (drop j cs) = []" by simp
      qed
    next
      assume a: "\<forall>j \<le> length cs. run r (drop j cs) = []"
      show "\<forall>j \<le> length (c # cs). run r (drop j (c # cs)) = []"
      proof (intro allI impI)
        fix j assume j: "j \<le> length (c # cs)"
        show "run r (drop j (c # cs)) = []"
        proof (cases j)
          case 0
          with Nil show ?thesis by simp
        next
          case (Suc k)
          with j a show ?thesis by simp
        qed
      qed
    qed
    with Nil Cons.IH show ?thesis by simp
  next
    case (Cons p ps)
    then have "run r (drop 0 (c # cs)) \<noteq> []" by simp
    then have "\<not> (\<forall>j \<le> length (c # cs). run r (drop j (c # cs)) = [])" by blast
    with Cons show ?thesis by (simp split: prod.splits)
  qed
qed

lemma regexp_exec_first:
  "run r (drop i s) = (caps, rest) # ps \<Longrightarrow> i \<le> length s \<Longrightarrow> (\<forall>j < i. run r (drop j s) = [])
   \<Longrightarrow> \<exists>whole. regexp_exec r s = Some (whole # caps, rest)"
proof (induction s arbitrary: i)
  case Nil
  then show ?case by simp
next
  case (Cons c cs)
  show ?case
  proof (cases i)
    case 0
    with Cons.prems show ?thesis by simp
  next
    case (Suc k)
    with Cons.prems have n: "run r (c # cs) = []" by (metis drop0 zero_less_Suc)
    from Suc Cons.prems have a: "run r (drop k cs) = (caps, rest) # ps" and b: "k \<le> length cs"
      by simp_all
    have "\<forall>j < k. run r (drop j cs) = []"
    proof (intro allI impI)
      fix j assume "j < k"
      with Suc Cons.prems(3) have "run r (drop (Suc j) (c # cs)) = []" by (metis Suc_less_eq)
      then show "run r (drop j cs) = []" by simp
    qed
    from Cons.IH [OF a b this] n show ?thesis by simp
  qed
qed

text \<open>Character classes of digits and of white space contain what they list, in any case.\<close>

lemma canonicalize_cases: "canonicalize c = c \<or> canonicalize c \<in> set upper_letters"
proof (cases "map_of (zip lower_letters upper_letters) c")
  case None
  then show ?thesis by (simp add: canonicalize_def)
next
  case (Some u)
  then have "(c, u) \<in> set (zip lower_letters upper_letters)" by (rule map_of_SomeD)
  then have "u \<in> set upper_letters" by (rule set_zip_rightD)
  with Some show ?thesis by (simp add: canonicalize_def)
qed

lemma canonicalize_other: "c \<notin> set lower_letters \<Longrightarrow> canonicalize c = c"
proof -
  assume a: "c \<notin> set lower_letters"
  have "length lower_letters = length upper_letters"
    by (simp add: lower_letters_def upper_letters_def)
  then have "map fst (zip lower_letters upper_letters) = lower_letters" by (rule map_fst_zip)
  then have "fst ` set (zip lower_letters upper_letters) = set lower_letters"
    by (metis set_map)
  with a have "map_of (zip lower_letters upper_letters) c = None"
    by (simp add: map_of_eq_None_iff)
  then show ?thesis by (simp add: canonicalize_def)
qed

lemma canonicalize_digit: "canonicalize c \<in> set digit \<longleftrightarrow> c \<in> set digit"
proof
  assume a: "canonicalize c \<in> set digit"
  have "\<And>x. x \<in> set upper_letters \<Longrightarrow> x \<notin> set digit"
    by (auto simp: upper_letters_def digit_def)
  with a canonicalize_cases [of c] show "c \<in> set digit" by auto
next
  assume "c \<in> set digit"
  then have "c \<notin> set lower_letters" by (auto simp: digit_def lower_letters_def)
  then have "canonicalize c = c" by (rule canonicalize_other)
  with \<open>c \<in> set digit\<close> show "canonicalize c \<in> set digit" by simp
qed

lemma canonicalize_space: "canonicalize c \<in> set space \<longleftrightarrow> c \<in> set space"
proof
  assume a: "canonicalize c \<in> set space"
  have "\<And>x. x \<in> set upper_letters \<Longrightarrow> x \<notin> set space"
    by (auto simp: upper_letters_def space_def)
  with a canonicalize_cases [of c] show "c \<in> set space" by auto
next
  assume "c \<in> set space"
  then have "c \<notin> set lower_letters" by (auto simp: space_def lower_letters_def)
  then have "canonicalize c = c" by (rule canonicalize_other)
  with \<open>c \<in> set space\<close> show "canonicalize c \<in> set space" by simp
qed

lemma in_class_digit: "in_class digit c \<longleftrightarrow> c \<in> set digit"
proof -
  have "map canonicalize digit = digit"
    by (simp add: digit_def canonicalize_def lower_letters_def upper_letters_def)
  then show ?thesis by (simp add: in_class_def canonicalize_digit)
qed

lemma in_class_space: "in_class space c \<longleftrightarrow> c \<in> set space"
proof -
  have "map canonicalize space = space"
    by (simp add: space_def canonicalize_def lower_letters_def upper_letters_def)
  then show ?thesis by (simp add: in_class_def canonicalize_space)
qed

lemma derives_alts:
  "ws \<noteq> [] \<Longrightarrow> derives (alts ws) u caps \<longleftrightarrow> (\<exists>w \<in> set ws. ci_eq u w) \<and> caps = []"
  by (induction ws rule: alts.induct) auto

text \<open>
  A number with a unit at the start of a text: decimal digits, white space if any, and a
  unit word in any case.
\<close>

definition number_unit_at :: "string list \<Rightarrow> string \<Rightarrow> string \<Rightarrow> string \<Rightarrow> bool" where
  "number_unit_at units t n u =
     (\<exists>ws rest. t = n @ ws @ u @ rest \<and> n \<noteq> [] \<and> set n \<subseteq> set digit \<and> set ws \<subseteq> set space
        \<and> (\<exists>w \<in> set units. ci_eq u w))"

text \<open>
  The unit words of a pattern begin with letters or signs that are neither digits nor white
  space and that tell the words apart.
\<close>

definition unit_heads :: "string list \<Rightarrow> bool" where
  "unit_heads units =
     ((\<forall>w \<in> set units. w \<noteq> [] \<and> canonicalize (hd w) \<notin> set digit
          \<and> canonicalize (hd w) \<notin> set space)
      \<and> (\<forall>w \<in> set units. \<forall>w' \<in> set units.
            canonicalize (hd w) = canonicalize (hd w') \<longrightarrow> w = w'))"

lemma takeWhile_prefix:
  "\<forall>c \<in> set a. P c \<Longrightarrow> b = [] \<or> \<not> P (hd b) \<Longrightarrow> takeWhile P (a @ b) = a \<and> dropWhile P (a @ b) = b"
  by (cases b) (auto simp: takeWhile_append2 dropWhile_append2)

lemma ci_eq_length: "ci_eq u w \<Longrightarrow> length u = length w"
  unfolding ci_eq_def by (metis length_map)

lemma ci_eq_hd: "ci_eq u w \<Longrightarrow> w \<noteq> [] \<Longrightarrow> u \<noteq> [] \<and> canonicalize (hd u) = canonicalize (hd w)"
  unfolding ci_eq_def by (cases u; cases w) auto

lemma unit_start:
  assumes "unit_heads units" and "w \<in> set units" and "ci_eq u w"
  shows "u \<noteq> [] \<and> hd u \<notin> set digit \<and> hd u \<notin> set space"
proof -
  from assms(1,2) have w: "w \<noteq> []" "canonicalize (hd w) \<notin> set digit"
    "canonicalize (hd w) \<notin> set space" by (auto simp: unit_heads_def)
  from ci_eq_hd [OF assms(3) w(1)] have u: "u \<noteq> []" "canonicalize (hd u) = canonicalize (hd w)"
    by simp_all
  from u(2) w(2) have "hd u \<notin> set digit" using canonicalize_digit [of "hd u"] by simp
  moreover from u(2) w(3) have "hd u \<notin> set space" using canonicalize_space [of "hd u"] by simp
  ultimately show ?thesis using u(1) by simp
qed

lemma digit_not_space: "c \<in> set digit \<Longrightarrow> c \<notin> set space"
  by (auto simp: digit_def space_def)

lemma number_prefix:
  assumes "set n \<subseteq> set digit" and "set ws \<subseteq> set space"
    and "u \<noteq> []" and "hd u \<notin> set digit" and "hd u \<notin> set space"
  shows "takeWhile (\<lambda>c. c \<in> set digit) (n @ ws @ u @ rest) = n"
    and "takeWhile (\<lambda>c. c \<in> set space) (dropWhile (\<lambda>c. c \<in> set digit) (n @ ws @ u @ rest)) = ws"
    and "dropWhile (\<lambda>c. c \<in> set space) (dropWhile (\<lambda>c. c \<in> set digit) (n @ ws @ u @ rest))
           = u @ rest"
proof -
  from assms(3) obtain x xs where u: "u = x # xs" by (cases u) auto
  with assms(4,5) have x: "x \<notin> set digit" "x \<notin> set space" by simp_all
  have h: "ws @ u @ rest = [] \<or> \<not> hd (ws @ u @ rest) \<in> set digit"
  proof (cases ws)
    case Nil
    with u x show ?thesis by simp
  next
    case (Cons y ys)
    with assms(2) have "y \<in> set space" by simp
    then have "y \<notin> set digit" using digit_not_space by blast
    with Cons show ?thesis by simp
  qed
  from assms(1) have n: "\<forall>c \<in> set n. c \<in> set digit" by blast
  from takeWhile_prefix [OF n h]
  have 1: "takeWhile (\<lambda>c. c \<in> set digit) (n @ ws @ u @ rest) = n"
    and 2: "dropWhile (\<lambda>c. c \<in> set digit) (n @ ws @ u @ rest) = ws @ u @ rest"
    by simp_all
  from 1 show "takeWhile (\<lambda>c. c \<in> set digit) (n @ ws @ u @ rest) = n" .
  have h': "u @ rest = [] \<or> \<not> hd (u @ rest) \<in> set space" using u x by simp
  from assms(2) have w: "\<forall>c \<in> set ws. c \<in> set space" by blast
  from takeWhile_prefix [OF w h'] 2
  show "takeWhile (\<lambda>c. c \<in> set space) (dropWhile (\<lambda>c. c \<in> set digit) (n @ ws @ u @ rest)) = ws"
    and "dropWhile (\<lambda>c. c \<in> set space) (dropWhile (\<lambda>c. c \<in> set digit) (n @ ws @ u @ rest))
           = u @ rest"
    by simp_all
qed

lemma number_unit_unique:
  assumes ok: "unit_heads units"
    and a: "number_unit_at units t n u" and b: "number_unit_at units t n' u'"
  shows "n = n' \<and> u = u'"
proof -
  from a obtain ws rest w where a': "t = n @ ws @ u @ rest" "set n \<subseteq> set digit"
    "set ws \<subseteq> set space" "w \<in> set units" "ci_eq u w"
    unfolding number_unit_at_def by blast
  from b obtain ws' rest' w' where b': "t = n' @ ws' @ u' @ rest'" "set n' \<subseteq> set digit"
    "set ws' \<subseteq> set space" "w' \<in> set units" "ci_eq u' w'"
    unfolding number_unit_at_def by blast
  from unit_start [OF ok a'(4,5)] have u: "u \<noteq> []" "hd u \<notin> set digit" "hd u \<notin> set space"
    by simp_all
  from unit_start [OF ok b'(4,5)] have u': "u' \<noteq> []" "hd u' \<notin> set digit" "hd u' \<notin> set space"
    by simp_all
  note p = number_prefix [OF a'(2,3) u, of rest, folded a'(1)]
  note p' = number_prefix [OF b'(2,3) u', of rest', folded b'(1)]
  from p(1) p'(1) have n: "n = n'" by simp
  from p(3) p'(3) have e: "u @ rest = u' @ rest'" by simp
  from u obtain x xs where x: "u = x # xs" by (cases u) auto
  from u' obtain x' xs' where x': "u' = x' # xs'" by (cases u') auto
  from e x x' have "hd u = hd u'" by simp
  moreover from ok a'(4) b'(4) have "w \<noteq> []" "w' \<noteq> []" by (auto simp: unit_heads_def)
  ultimately have "canonicalize (hd w) = canonicalize (hd w')"
    using ci_eq_hd [OF a'(5)] ci_eq_hd [OF b'(5)] by simp
  with ok a'(4) b'(4) have "w = w'" unfolding unit_heads_def by blast
  with ci_eq_length [OF a'(5)] ci_eq_length [OF b'(5)] have "length u = length u'" by simp
  with e have "u = u'" by simp
  with n show ?thesis by simp
qed

text \<open>A pattern that finds numbers with units, and captures the number and the unit.\<close>

definition finds :: "regex \<Rightarrow> string list \<Rightarrow> bool" where
  "finds re units =
     ((\<forall>t caps r. (caps, r) \<in> set (run re t) \<longrightarrow>
          (\<exists>n u. caps = [n, u] \<and> number_unit_at units t n u))
      \<and> (\<forall>t n u. number_unit_at units t n u \<longrightarrow> run re t \<noteq> []))"

lemma first_match:
  assumes f: "finds re units" and ok: "unit_heads units"
    and m: "number_unit_at units (drop i s) n u"
    and first: "\<forall>j < i. \<forall>n' u'. \<not> number_unit_at units (drop j s) n' u'"
  shows "\<exists>whole. js_match re s = Some [whole, n, u]"
proof -
  from f m have "run re (drop i s) \<noteq> []" unfolding finds_def by blast
  then obtain caps rest ps where r: "run re (drop i s) = (caps, rest) # ps"
    by (cases "run re (drop i s)") auto
  then have "(caps, rest) \<in> set (run re (drop i s))" by simp
  with f obtain n' u' where c: "caps = [n', u']" "number_unit_at units (drop i s) n' u'"
    unfolding finds_def by blast
  from number_unit_unique [OF ok m c(2)] c(1) have caps: "caps = [n, u]" by simp
  from m have "drop i s \<noteq> []" by (auto simp: number_unit_at_def)
  then have i: "i \<le> length s" by simp
  have "\<forall>j < i. run re (drop j s) = []"
  proof (intro allI impI)
    fix j assume j: "j < i"
    show "run re (drop j s) = []"
    proof (rule ccontr)
      assume "run re (drop j s) \<noteq> []"
      then obtain c' r' ps' where "run re (drop j s) = (c', r') # ps'"
        by (cases "run re (drop j s)") auto
      then have "(c', r') \<in> set (run re (drop j s))" by simp
      with f obtain n' u' where "number_unit_at units (drop j s) n' u'"
        unfolding finds_def by blast
      with first j show False by blast
    qed
  qed
  from regexp_exec_first [OF r i this] caps show ?thesis by (auto simp: js_match_def)
qed

lemma no_match:
  assumes f: "finds re units"
    and none: "\<forall>j n u. \<not> number_unit_at units (drop j s) n u"
  shows "js_match re s = None"
proof -
  have "\<forall>j \<le> length s. run re (drop j s) = []"
  proof (intro allI impI)
    fix j
    show "run re (drop j s) = []"
    proof (rule ccontr)
      assume "run re (drop j s) \<noteq> []"
      then obtain c' r' ps' where "run re (drop j s) = (c', r') # ps'"
        by (cases "run re (drop j s)") auto
      then have "(c', r') \<in> set (run re (drop j s))" by simp
      with f obtain n' u' where "number_unit_at units (drop j s) n' u'"
        unfolding finds_def by blast
      with none show False by blast
    qed
  qed
  then show ?thesis by (simp add: js_match_def regexp_exec_None)
qed

lemma derives_SeqD:
  "derives (Seq a b) u caps \<Longrightarrow>
   \<exists>u1 u2 c1 c2. u = u1 @ u2 \<and> caps = c1 @ c2 \<and> derives a u1 c1 \<and> derives b u2 c2"
  by simp

lemma derives_SeqI:
  "derives a u1 c1 \<Longrightarrow> derives b u2 c2 \<Longrightarrow> derives (Seq a b) (u1 @ u2) (c1 @ c2)"
  by auto

lemma finds_with_suffix:
  assumes "units \<noteq> []" and "derives sfx [] []" and "\<forall>v c. derives sfx v c \<longrightarrow> c = []"
  shows "finds (Seq (Group (Plus digit)) (Seq (Star space) (Seq (Group (alts units)) sfx))) units"
  unfolding finds_def
proof (intro conjI allI impI)
  fix t caps r
  assume "(caps, r) \<in> set (run (Seq (Group (Plus digit)) (Seq (Star space) (Seq (Group (alts units)) sfx))) t)"
  then obtain word where w: "t = word @ r"
    "derives (Seq (Group (Plus digit)) (Seq (Star space) (Seq (Group (alts units)) sfx))) word caps"
    unfolding run_derives by blast
  from derives_SeqD [OF w(2)] obtain n x1 c1 d1 where s1: "word = n @ x1" "caps = c1 @ d1"
    "derives (Group (Plus digit)) n c1"
    "derives (Seq (Star space) (Seq (Group (alts units)) sfx)) x1 d1" by blast
  from derives_SeqD [OF s1(4)] obtain ws x2 c2 d2 where s2: "x1 = ws @ x2" "d1 = c2 @ d2"
    "derives (Star space) ws c2" "derives (Seq (Group (alts units)) sfx) x2 d2" by blast
  from derives_SeqD [OF s2(4)] obtain u v c3 c where s3: "x2 = u @ v" "d2 = c3 @ c"
    "derives (Group (alts units)) u c3" "derives sfx v c" by blast
  from s1(3) have g1: "c1 = [n]" "n \<noteq> []" "set n \<subseteq> set digit"
    by (auto simp: in_class_digit)
  from s2(3) have g2: "c2 = []" "set ws \<subseteq> set space"
    by (auto simp: in_class_space)
  from s3(3) assms(1) have g3: "c3 = [u]" "\<exists>w \<in> set units. ci_eq u w"
    by (auto simp: derives_alts)
  from s3(4) assms(3) have "c = []" by blast
  with s1(2) s2(2) s3(2) g1(1) g2(1) g3(1) have caps: "caps = [n, u]" by simp
  from w(1) s1(1) s2(1) s3(1) have "t = n @ ws @ u @ (v @ r)" by simp
  with g1(2,3) g2(2) g3(2) have "number_unit_at units t n u"
    unfolding number_unit_at_def by blast
  with caps show "\<exists>n u. caps = [n, u] \<and> number_unit_at units t n u" by blast
next
  fix t n u
  assume "number_unit_at units t n u"
  then obtain ws rest where d: "t = n @ ws @ u @ rest" "n \<noteq> []" "set n \<subseteq> set digit"
    "set ws \<subseteq> set space" "\<exists>w \<in> set units. ci_eq u w"
    unfolding number_unit_at_def by blast
  let ?re = "Seq (Group (Plus digit)) (Seq (Star space) (Seq (Group (alts units)) sfx))"
  from d(2,3) have 1: "derives (Group (Plus digit)) n [n]"
    by (auto simp: in_class_digit)
  from d(4) have 2: "derives (Star space) ws []"
    by (auto simp: in_class_space)
  from d(5) assms(1) have 3: "derives (Group (alts units)) u [u]"
    by (simp add: derives_alts)
  note 4 = derives_SeqI [OF 3 assms(2)]
  note 5 = derives_SeqI [OF 2 4]
  note 6 = derives_SeqI [OF 1 5]
  from 6 have "derives ?re (n @ ws @ u) [n, u]" by simp
  with d(1) have "t = (n @ ws @ u) @ rest \<and> derives ?re (n @ ws @ u) [n, u]" by simp
  then have "([n, u], rest) \<in> set (run ?re t)" unfolding run_derives by blast
  then show "run ?re t \<noteq> []" by (metis empty_iff empty_set)
qed


lemma finds_plain:
  assumes "units \<noteq> []"
  shows "finds (Seq (Group (Plus digit)) (Seq (Star space) (Group (alts units)))) units"
  unfolding finds_def
proof (intro conjI allI impI)
  fix t caps r
  assume "(caps, r) \<in> set (run (Seq (Group (Plus digit)) (Seq (Star space) (Group (alts units)))) t)"
  then obtain word where w: "t = word @ r"
    "derives (Seq (Group (Plus digit)) (Seq (Star space) (Group (alts units)))) word caps"
    unfolding run_derives by blast
  from derives_SeqD [OF w(2)] obtain n x1 c1 d1 where s1: "word = n @ x1" "caps = c1 @ d1"
    "derives (Group (Plus digit)) n c1"
    "derives (Seq (Star space) (Group (alts units))) x1 d1" by blast
  from derives_SeqD [OF s1(4)] obtain ws u c2 c3 where s2: "x1 = ws @ u" "d1 = c2 @ c3"
    "derives (Star space) ws c2" "derives (Group (alts units)) u c3" by blast
  from s1(3) have g1: "c1 = [n]" "n \<noteq> []" "set n \<subseteq> set digit"
    by (auto simp: in_class_digit)
  from s2(3) have g2: "c2 = []" "set ws \<subseteq> set space"
    by (auto simp: in_class_space)
  from s2(4) assms have g3: "c3 = [u]" "\<exists>w \<in> set units. ci_eq u w"
    by (auto simp: derives_alts)
  from s1(2) s2(2) g1(1) g2(1) g3(1) have caps: "caps = [n, u]" by simp
  from w(1) s1(1) s2(1) have "t = n @ ws @ u @ r" by simp
  with g1(2,3) g2(2) g3(2) have "number_unit_at units t n u"
    unfolding number_unit_at_def by blast
  with caps show "\<exists>n u. caps = [n, u] \<and> number_unit_at units t n u" by blast
next
  fix t n u
  assume "number_unit_at units t n u"
  then obtain ws rest where d: "t = n @ ws @ u @ rest" "n \<noteq> []" "set n \<subseteq> set digit"
    "set ws \<subseteq> set space" "\<exists>w \<in> set units. ci_eq u w"
    unfolding number_unit_at_def by blast
  let ?re = "Seq (Group (Plus digit)) (Seq (Star space) (Group (alts units)))"
  from d(2,3) have 1: "derives (Group (Plus digit)) n [n]"
    by (auto simp: in_class_digit)
  from d(4) have 2: "derives (Star space) ws []"
    by (auto simp: in_class_space)
  from d(5) assms have 3: "derives (Group (alts units)) u [u]"
    by (simp add: derives_alts)
  note 4 = derives_SeqI [OF 2 3]
  note 5 = derives_SeqI [OF 1 4]
  from 5 have "derives ?re (n @ ws @ u) [n, u]" by simp
  with d(1) have "t = (n @ ws @ u) @ rest \<and> derives ?re (n @ ws @ u) [n, u]" by simp
  then have "([n, u], rest) \<in> set (run ?re t)" unfolding run_derives by blast
  then show "run ?re t \<noteq> []" by (metis empty_iff empty_set)
qed

text \<open>
  A duration at the start of a text: \<^verbatim>\<open><integer> (hour|minute|day|week)\<close>, and a
  temperature: \<^verbatim>\<open><integer>\<close> and one of \<^verbatim>\<open>degree\<close>, the degree sign, \<^verbatim>\<open>celsius\<close>, \<^verbatim>\<open>fahrenheit\<close>, with the digits \<open>n\<close> and the
  unit \<open>u\<close> as they are written.
\<close>

definition duration_at :: "string \<Rightarrow> string \<Rightarrow> string \<Rightarrow> bool" where
  "duration_at t n u = number_unit_at [''hour'', ''minute'', ''day'', ''week''] t n u"

definition temperature_at :: "string \<Rightarrow> string \<Rightarrow> string \<Rightarrow> bool" where
  "temperature_at t n u =
     number_unit_at [''degree'', [CHR 0xB0], ''celsius'', ''fahrenheit''] t n u"

lemma duration_heads: "unit_heads [''hour'', ''minute'', ''day'', ''week'']"
  by (simp add: unit_heads_def canonicalize_def lower_letters_def upper_letters_def
      digit_def space_def)

lemma temperature_heads: "unit_heads [''degree'', [CHR 0xB0], ''celsius'', ''fahrenheit'']"
  by (simp add: unit_heads_def canonicalize_def lower_letters_def upper_letters_def
      digit_def space_def)

lemma finds_timePattern: "finds timePattern [''hour'', ''minute'', ''day'', ''week'']"
  unfolding timePattern_def by (rule finds_with_suffix) auto

lemma finds_tempPattern:
  "finds tempPattern [''degree'', [CHR 0xB0], ''celsius'', ''fahrenheit'']"
  unfolding tempPattern_def by (rule finds_plain) simp

lemma extract_duration_first:
  assumes "duration_at (drop i s) n u" and "\<forall>j < i. \<forall>n' u'. \<not> duration_at (drop j s) n' u'"
  shows "extract_duration s = Some (n @ '' '' @ u @ (if 1 < to_number n then ''s'' else []))"
proof -
  from first_match [OF finds_timePattern duration_heads] assms
  obtain whole where "js_match timePattern s = Some [whole, n, u]"
    unfolding duration_at_def by blast
  then show ?thesis by (simp add: extract_duration_def)
qed

lemma extract_duration_none:
  assumes "\<forall>j n u. \<not> duration_at (drop j s) n u"
  shows "extract_duration s = None"
proof -
  from no_match [OF finds_timePattern] assms have "js_match timePattern s = None"
    unfolding duration_at_def by blast
  then show ?thesis by (simp add: extract_duration_def)
qed

lemma extract_temperature_first:
  assumes "temperature_at (drop i s) n u"
    and "\<forall>j < i. \<forall>n' u'. \<not> temperature_at (drop j s) n' u'"
  shows "extract_temperature s = Some (n @ [CHR 0xB0])"
proof -
  from first_match [OF finds_tempPattern temperature_heads] assms
  obtain whole where "js_match tempPattern s = Some [whole, n, u]"
    unfolding temperature_at_def by blast
  then show ?thesis by (simp add: extract_temperature_def)
qed

lemma extract_temperature_none:
  assumes "\<forall>j n u. \<not> temperature_at (drop j s) n u"
  shows "extract_temperature s = None"
proof -
  from no_match [OF finds_tempPattern] assms have "js_match tempPattern s = None"
    unfolding temperature_at_def by blast
  then show ?thesis by (simp add: extract_temperature_def)
qed

lemma number_unit_starts: "number_unit_at units t n u \<Longrightarrow> t \<noteq> [] \<and> hd t \<in> set digit"
  unfolding number_unit_at_def by (cases n) auto

lemma number_unit_needs_digit:
  assumes "number_unit_at units (drop j s) n u"
  shows "\<exists>c \<in> set s. c \<in> set digit"
proof -
  from number_unit_starts [OF assms] have "hd (drop j s) \<in> set (drop j s)" "hd (drop j s) \<in> set digit"
    by simp_all
  then show ?thesis by (meson in_set_dropD)
qed

lemma processInput_metrics:
  "duration (extracted_metrics (processInput s)) = extract_duration s"
  "temperature (extracted_metrics (processInput s)) = extract_temperature s"
  by (simp_all add: processInput_def Let_def)

lemma to_number_eval:
  "to_number [] = 0"
  "to_number (ds @ [c]) = 10 * to_number ds + digit_val c"
  by (simp_all add: to_number_def)

text \<open>
  C3, as the code has it. When the text has a duration, \<^verbatim>\<open>duration\<close> is built from the
  first one: its digits \<open>n\<close>, a blank and its unit \<open>u\<close> as written, followed by \<^verbatim>\<open>s\<close>
  exactly when the number that \<open>n\<close> denotes is greater than 1. When the text has no
  duration, the key is absent.
\<close>

theorem duration_of_first_match:
  "(duration_at (drop i s) n u \<and> (\<forall>j < i. \<forall>n' u'. \<not> duration_at (drop j s) n' u')
      \<longrightarrow> duration (extracted_metrics (processInput s))
            = Some (n @ '' '' @ u @ (if 1 < to_number n then ''s'' else [])))
   \<and> ((\<forall>j n' u'. \<not> duration_at (drop j s) n' u')
      \<longrightarrow> duration (extracted_metrics (processInput s)) = None)"
  using extract_duration_first [of i s n u] extract_duration_none [of s]
  by (simp add: processInput_metrics)

theorem duration_of_first_match_witness:
  "duration_at (drop 5 ''Down 10 HOURS'') ''10'' ''HOUR''
   \<and> \<not> (\<exists>j n' u'. j < 5 \<and> duration_at (drop j ''Down 10 HOURS'') n' u')
   \<and> duration (extracted_metrics (processInput ''Down 10 HOURS'')) = Some ''10 HOURs''
   \<and> (\<forall>j n' u'. \<not> duration_at (drop j ''no number'') n' u')
   \<and> duration (extracted_metrics (processInput ''no number'')) = None"
proof -
  have "ci_eq ''HOUR'' ''hour''"
    by (simp add: ci_eq_def canonicalize_def lower_letters_def upper_letters_def)
  moreover have "drop 5 ''Down 10 HOURS'' = ''10'' @ '' '' @ ''HOUR'' @ ''S''" by simp
  ultimately have a: "duration_at (drop 5 ''Down 10 HOURS'') ''10'' ''HOUR''"
    unfolding duration_at_def number_unit_at_def
    by (intro exI [of _ "'' ''"] exI [of _ "''S''"]) (simp add: digit_def space_def)
  have b: "\<forall>j < 5. \<forall>n' u'. \<not> duration_at (drop j ''Down 10 HOURS'') n' u'"
  proof (intro allI impI notI)
    fix j :: nat and n' u'
    assume "j < 5" and "duration_at (drop j ''Down 10 HOURS'') n' u'"
    then have "hd (drop j ''Down 10 HOURS'') \<in> set digit"
      unfolding duration_at_def by (simp add: number_unit_starts)
    moreover from \<open>j < 5\<close> have "j = 0 \<or> j = 1 \<or> j = 2 \<or> j = 3 \<or> j = 4" by arith
    ultimately show False by (auto simp: digit_def)
  qed
  have n: "to_number ''10'' = 10"
    using to_number_eval(2) [of "''1''" "CHR ''0''"] to_number_eval(2) [of "[]" "CHR ''1''"]
    by (simp add: to_number_eval(1) digit_val_def digit_def)
  have c: "\<forall>j n' u'. \<not> duration_at (drop j ''no number'') n' u'"
  proof (intro allI notI)
    fix j n' u'
    assume "duration_at (drop j ''no number'') n' u'"
    then have "\<exists>c \<in> set ''no number''. c \<in> set digit"
      unfolding duration_at_def by (rule number_unit_needs_digit)
    then show False by (simp add: digit_def)
  qed
  from b have b': "\<not> (\<exists>j n' u'. j < 5 \<and> duration_at (drop j ''Down 10 HOURS'') n' u')"
    by blast
  from a b b' c n duration_of_first_match [of 5 "''Down 10 HOURS''" "''10''" "''HOUR''"]
    duration_of_first_match [of 0 "''no number''" "[]" "[]"]
  show ?thesis by simp
qed

text \<open>
  The digits \<^verbatim>\<open>0\<close> differ from \<^verbatim>\<open>1\<close> as strings, and yet no \<^verbatim>\<open>s\<close> is appended: the
  comparison \<^verbatim>\<open>timeMatch[1] > 1\<close> is one of numbers.
\<close>

theorem plural_of_zero:
  "''0'' \<noteq> ''1'' \<and> duration_at ''0 hours'' ''0'' ''hour''
   \<and> duration (extracted_metrics (processInput ''0 hours'')) = Some ''0 hour''"
proof -
  have "ci_eq ''hour'' ''hour''" by (simp add: ci_eq_def)
  moreover have "''0 hours'' = ''0'' @ '' '' @ ''hour'' @ ''s''" by simp
  ultimately have a: "duration_at ''0 hours'' ''0'' ''hour''"
    unfolding duration_at_def number_unit_at_def
    by (intro exI [of _ "'' ''"] exI [of _ "''s''"]) (simp add: digit_def space_def)
  have n: "to_number ''0'' = 0"
    using to_number_eval(2) [of "[]" "CHR ''0''"]
    by (simp add: to_number_eval(1) digit_val_def digit_def)
  from a have "duration_at (drop 0 ''0 hours'') ''0'' ''hour''" by simp
  from extract_duration_first [OF this] n
  have "extract_duration ''0 hours'' = Some ''0 hour''" by simp
  with a show ?thesis by (simp add: processInput_metrics)
qed

text \<open>
  C6. When the text has a temperature, \<^verbatim>\<open>temperature\<close> is the digits of the first one
  followed by the degree sign, whichever unit word was written. When the text has no
  temperature, the key is absent.
\<close>

theorem temperature_of_first_match:
  "(temperature_at (drop i s) n u \<and> (\<forall>j < i. \<forall>n' u'. \<not> temperature_at (drop j s) n' u')
      \<longrightarrow> temperature (extracted_metrics (processInput s)) = Some (n @ [CHR 0xB0]))
   \<and> ((\<forall>j n' u'. \<not> temperature_at (drop j s) n' u')
      \<longrightarrow> temperature (extracted_metrics (processInput s)) = None)"
  using extract_temperature_first [of i s n u] extract_temperature_none [of s]
  by (simp add: processInput_metrics)

theorem temperature_of_first_match_witness:
  "temperature_at (drop 3 ''at 95 Fahrenheit, then 100 celsius'') ''95'' ''Fahrenheit''
   \<and> \<not> (\<exists>j n' u'. j < 3
          \<and> temperature_at (drop j ''at 95 Fahrenheit, then 100 celsius'') n' u')
   \<and> temperature (extracted_metrics (processInput ''at 95 Fahrenheit, then 100 celsius''))
       = Some [CHR ''9'', CHR ''5'', CHR 0xB0]
   \<and> (\<forall>j n' u'. \<not> temperature_at (drop j ''no number'') n' u')
   \<and> temperature (extracted_metrics (processInput ''no number'')) = None"
proof -
  have "ci_eq ''Fahrenheit'' ''fahrenheit''"
    by (simp add: ci_eq_def canonicalize_def lower_letters_def upper_letters_def)
  moreover have "drop 3 ''at 95 Fahrenheit, then 100 celsius''
      = ''95'' @ '' '' @ ''Fahrenheit'' @ '', then 100 celsius''" by simp
  ultimately have a: "temperature_at (drop 3 ''at 95 Fahrenheit, then 100 celsius'') ''95'' ''Fahrenheit''"
    unfolding temperature_at_def number_unit_at_def
    by (intro exI [of _ "'' ''"] exI [of _ "'', then 100 celsius''"]) (simp add: digit_def space_def)
  have b: "\<forall>j < 3. \<forall>n' u'. \<not> temperature_at (drop j ''at 95 Fahrenheit, then 100 celsius'') n' u'"
  proof (intro allI impI notI)
    fix j :: nat and n' u'
    assume "j < 3" and "temperature_at (drop j ''at 95 Fahrenheit, then 100 celsius'') n' u'"
    then have "hd (drop j ''at 95 Fahrenheit, then 100 celsius'') \<in> set digit"
      unfolding temperature_at_def by (simp add: number_unit_starts)
    moreover from \<open>j < 3\<close> have "j = 0 \<or> j = 1 \<or> j = 2" by arith
    ultimately show False by (auto simp: digit_def)
  qed
  have c: "\<forall>j n' u'. \<not> temperature_at (drop j ''no number'') n' u'"
  proof (intro allI notI)
    fix j n' u'
    assume "temperature_at (drop j ''no number'') n' u'"
    then have "\<exists>c \<in> set ''no number''. c \<in> set digit"
      unfolding temperature_at_def by (rule number_unit_needs_digit)
    then show False by (simp add: digit_def)
  qed
  from b have b': "\<not> (\<exists>j n' u'. j < 3
      \<and> temperature_at (drop j ''at 95 Fahrenheit, then 100 celsius'') n' u')"
    by blast
  from a b b' c
    temperature_of_first_match [of 3 "''at 95 Fahrenheit, then 100 celsius''" "''95''" "''Fahrenheit''"]
    temperature_of_first_match [of 0 "''no number''" "[]" "[]"]
  show ?thesis by simp
qed

section \<open>Entities\<close>

lemma set_add_eq: "set_add acc x = (if x \<in> set acc then acc else acc @ [x])"
  by (simp add: set_add_def)

lemma new_Set_snoc: "new_Set (xs @ [x]) = set_add (new_Set xs) x"
  by (simp add: new_Set_def)

lemma set_new_Set: "set (new_Set xs) = set xs"
  by (induction xs rule: rev_induct) (auto simp: new_Set_snoc set_add_eq new_Set_def)

lemma distinct_new_Set: "distinct (new_Set xs)"
  by (induction xs rule: rev_induct) (auto simp: new_Set_snoc set_add_eq new_Set_def)

text \<open>The positions of a list that hold an element for the first time.\<close>

definition first_positions :: "'a list \<Rightarrow> nat list" where
  "first_positions xs = filter (\<lambda>i. xs ! i \<notin> set (take i xs)) [0..<length xs]"

lemma first_positions_snoc:
  "first_positions (xs @ [x]) =
     first_positions xs @ (if x \<in> set xs then [] else [length xs])"
proof -
  have "filter (\<lambda>i. (xs @ [x]) ! i \<notin> set (take i (xs @ [x]))) [0..<length xs]
      = filter (\<lambda>i. xs ! i \<notin> set (take i xs)) [0..<length xs]"
    by (rule filter_cong) (auto simp: nth_append)
  then show ?thesis by (simp add: first_positions_def)
qed

lemma new_Set_first: "new_Set xs = map ((!) xs) (first_positions xs)"
proof (induction xs rule: rev_induct)
  case Nil
  show ?case by (simp add: new_Set_def first_positions_def)
next
  case (snoc x xs)
  have "map ((!) (xs @ [x])) (first_positions xs) = map ((!) xs) (first_positions xs)"
    by (rule map_cong) (auto simp: first_positions_def nth_append)
  moreover have "new_Set (xs @ [x]) = (if x \<in> set xs then new_Set xs else new_Set xs @ [x])"
    by (simp add: new_Set_snoc set_add_eq set_new_Set)
  ultimately show ?case
    by (simp add: snoc first_positions_snoc)
qed

lemma example_entities:
  "extract_entities ''Motor motor MOTOR'' = [''Motor'', ''motor'', ''MOTOR'']"
  by code_simp

text \<open>
  C7. The entities of an annotation hold no string twice. They are the matched texts in
  the order of matching, each kept where it occurs first; texts that differ only in case
  are different strings and are all kept.
\<close>

theorem entities_distinct:
  "distinct (entities (processInput s))
   \<and> set (entities (processInput s)) = set (extract_entities s)
   \<and> entities (processInput s)
       = map ((!) (extract_entities s)) (first_positions (extract_entities s))
   \<and> entities (processInput ''Motor motor MOTOR'') = [''Motor'', ''motor'', ''MOTOR'']"
proof -
  have e: "\<And>t. entities (processInput t) = new_Set (extract_entities t)"
    by (simp add: processInput_def Let_def)
  have "new_Set [''Motor'', ''motor'', ''MOTOR''] = [''Motor'', ''motor'', ''MOTOR'']"
    by (simp add: new_Set_def set_add_eq)
  with example_entities show ?thesis
    by (simp add: e distinct_new_Set set_new_Set new_Set_first [symmetric])
qed

section \<open>The trends report\<close>

text \<open>
  \<^verbatim>\<open>new Date(value)\<close> for a number: the time value is the number cut to an integer, or NaN
  (\<open>None\<close>) when the number is not finite or beyond 8.64e15.
\<close>

definition truncate_number :: "int \<Rightarrow> int \<Rightarrow> int" where
  "truncate_number m e =
     (if 0 \<le> e then m * 2 ^ nat e
      else if 0 \<le> m then m div 2 ^ nat (- e) else - ((- m) div 2 ^ nat (- e)))"

definition Date_of_number :: "number \<Rightarrow> int option" where
  "Date_of_number x =
     (case x of
        Fin m e \<Rightarrow>
          (case fraction \<bar>m\<bar> e of
             (p, r) \<Rightarrow>
               if 8640000000000000 * r < p then None else Some (truncate_number m e))
      | NegZero \<Rightarrow> Some 0
      | _ \<Rightarrow> None)"

text \<open>The decimal digits of a natural number.\<close>

function decimal :: "int \<Rightarrow> string" where
  "decimal k = (if k < 10 then [digit ! nat k] else decimal (k div 10) @ [digit ! nat (k mod 10)])"
  by pat_completeness auto
termination
  by (relation "measure nat") auto

declare decimal.simps [simp del]

text \<open>
  \<^verbatim>\<open>x.toFixed(2)\<close>. A number that is not finite is printed by name. A finite one is cut
  to the nearest multiple of 0.01, the larger one at a tie, after its sign is set aside.
  From 1e21 on \<^verbatim>\<open>toFixed\<close> prints the number in the notation of \<^verbatim>\<open>toString\<close>, which this
  model leaves out: the result is empty there. A quotient of a length below \<open>2 ^ 32\<close> by a
  nonzero integer stays far below that bound.
\<close>

definition toFixed2 :: "number \<Rightarrow> string" where
  "toFixed2 x =
     (case x of
        NaN \<Rightarrow> ''NaN''
      | PosInf \<Rightarrow> ''Infinity''
      | NegInf \<Rightarrow> ''-Infinity''
      | NegZero \<Rightarrow> ''0.00''
      | Fin m e \<Rightarrow>
          (case fraction \<bar>m\<bar> e of
             (p, r) \<Rightarrow>
               if 10 ^ 21 * r \<le> p then []
               else
                 (let n = (2 * (p * 100) + r) div (2 * r)
                  in (if m < 0 then ''-'' else []) @ decimal (n div 100) @ ''.'' @
                     pad 2 (nat (n mod 100)))))"

text \<open>
  \<^verbatim>\<open>new Date(string)\<close>. The time value of a string that \<^verbatim>\<open>toISOString\<close> writes is the
  one it was written from: its fields are read at their fixed places, and the time they
  give is taken when it is valid and prints as the string. How the engine reads any other
  string is left open: \<open>other\<close> stands for it.
\<close>

definition days_from_civil :: "int \<Rightarrow> int \<Rightarrow> int \<Rightarrow> int" where
  "days_from_civil y m d =
     (let y' = (if m \<le> 2 then y - 1 else y);
          era = y' div 400;
          yoe = y' mod 400;
          doy = (153 * (if 2 < m then m - 3 else m + 9) + 2) div 5 + d - 1;
          doe = yoe * 365 + yoe div 4 - yoe div 100 + doy
      in era * 146097 + doe - 719468)"

definition field :: "string \<Rightarrow> nat \<Rightarrow> nat \<Rightarrow> int" where
  "field s i n = int (to_number (take n (drop i s)))"

definition iso_time_value :: "string \<Rightarrow> int" where
  "iso_time_value s =
     (case s of
        c # rest \<Rightarrow>
          if c = CHR ''+'' \<or> c = CHR ''-'' then
            days_from_civil ((if c = CHR ''-'' then - 1 else 1) * field s 1 6) (field s 8 2)
                (field s 11 2) * msPerDay
              + ((field s 14 2 * 60 + field s 17 2) * 60 + field s 20 2) * 1000 + field s 23 3
          else
            days_from_civil (field s 0 4) (field s 5 2) (field s 8 2) * msPerDay
              + ((field s 11 2 * 60 + field s 14 2) * 60 + field s 17 2) * 1000 + field s 20 3
      | [] \<Rightarrow> 0)"

definition Date_of_string :: "(string \<Rightarrow> int option) \<Rightarrow> string \<Rightarrow> int option" where
  "Date_of_string other s =
     (let t = iso_time_value s
      in if \<bar>t\<bar> \<le> 8640000000000000 \<and> iso_string t = s then Some t else other s)"

text \<open>
  \<^verbatim>\<open>GET /api/trends\<close>. The query parameter \<^verbatim>\<open>days\<close> is \<open>None\<close> when the request has
  none, and otherwise the string its value converts to. The default 30 stands for a missing
  one; \<^verbatim>\<open>parseInt\<close> reads the number 30 as the string \<^verbatim>\<open>30\<close>.
\<close>

record trends =
  period_days :: number
  total_entries :: nat
  avg_per_day :: string
  categories :: "(category \<times> nat) list"
  severities :: "(severity \<times> nat) list"

definition not_before :: "int option \<Rightarrow> int option \<Rightarrow> bool" where
  "not_before a b = (case (a, b) of (Some x, Some y) \<Rightarrow> y \<le> x | _ \<Rightarrow> False)"

definition get_trends ::
    "(string \<Rightarrow> int option) \<Rightarrow> int \<Rightarrow> string option \<Rightarrow> entry list \<Rightarrow> trends" where
  "get_trends other now query_days entries =
     (let days = (case query_days of None \<Rightarrow> ''30'' | Some v \<Rightarrow> v);
          startDate =
            Date_of_number
              (minus_from now
                 (times_const (times_const (times_const (times_const (parseInt days) 24) 60) 60)
                    1000));
          filtered = filter (\<lambda>e. not_before (Date_of_string other (timestamp e)) startDate) entries
      in case tally filtered of
           (cs, ss) \<Rightarrow>
             \<lparr>period_days = parseInt days,
              total_entries = length filtered,
              avg_per_day = toFixed2 (divide_length (length filtered) (parseInt days)),
              categories = cs,
              severities = ss\<rparr>)"

text \<open>An engine that reads no string but those of \<^verbatim>\<open>toISOString\<close>.\<close>

definition no_other :: "string \<Rightarrow> int option" where
  "no_other s = None"

lemma times_const_exact: "\<bar>m * c\<bar> \<le> 2 ^ 53 \<Longrightarrow> times_const (Fin m 0) c = Fin (m * c) 0"
  by (simp add: times_const_def fraction_def to_double_def)

lemma minus_from_exact: "\<bar>t - m\<bar> \<le> 2 ^ 53 \<Longrightarrow> minus_from t (Fin m 0) = Fin (t - m) 0"
  by (simp add: minus_from_def fraction_def to_double_def)

lemma Date_of_number_exact:
  "\<bar>x\<bar> \<le> 8640000000000000 \<Longrightarrow> Date_of_number (Fin x 0) = Some x"
  by (simp add: Date_of_number_def truncate_number_def fraction_def)

lemma start_of_period:
  assumes "0 < d" and "d \<le> 100000000" and "\<bar>now\<bar> \<le> 8640000000000000"
    and "- 8640000000000000 \<le> now - d * msPerDay"
  shows "Date_of_number
           (minus_from now
              (times_const (times_const (times_const (times_const (Fin d 0) 24) 60) 60) 1000))
         = Some (now - d * msPerDay)"
proof -
  from assms(1,2) have 1: "times_const (Fin d 0) 24 = Fin (d * 24) 0"
    by (intro times_const_exact) simp
  from assms(1,2) have 2: "times_const (Fin (d * 24) 0) 60 = Fin (d * 24 * 60) 0"
    by (intro times_const_exact) simp
  from assms(1,2) have 3: "times_const (Fin (d * 24 * 60) 0) 60 = Fin (d * 24 * 60 * 60) 0"
    by (intro times_const_exact) simp
  from assms(1,2) have 4:
    "times_const (Fin (d * 24 * 60 * 60) 0) 1000 = Fin (d * 24 * 60 * 60 * 1000) 0"
    by (intro times_const_exact) simp
  have m: "d * 24 * 60 * 60 * 1000 = d * msPerDay" by (simp add: msPerDay_def)
  from assms have "\<bar>now - d * msPerDay\<bar> \<le> 2 ^ 53" by (simp add: msPerDay_def)
  then have 5: "minus_from now (Fin (d * msPerDay) 0) = Fin (now - d * msPerDay) 0"
    by (rule minus_from_exact)
  from assms have "\<bar>now - d * msPerDay\<bar> \<le> 8640000000000000" by (simp add: msPerDay_def)
  then have 6: "Date_of_number (Fin (now - d * msPerDay) 0) = Some (now - d * msPerDay)"
    by (rule Date_of_number_exact)
  show ?thesis by (simp only: 1 2 3 4 m 5 6)
qed

text \<open>The entries of the last \<open>d\<close> days: those stamped with a time from \<open>now - d\<close> days on.\<close>

definition recent :: "(string \<Rightarrow> int option) \<Rightarrow> int \<Rightarrow> int \<Rightarrow> entry list \<Rightarrow> entry list" where
  "recent other now d entries =
     filter (\<lambda>e. case Date_of_string other (timestamp e) of
                    None \<Rightarrow> False
                  | Some t \<Rightarrow> now - d * msPerDay \<le> t) entries"

text \<open>
  The average. A quotient of a length by a positive number of days is rounded twice: the
  division gives the nearest double, which carries at least 21 binary digits after the point
  here, and \<^verbatim>\<open>toFixed(2)\<close> gives the nearest hundredth of that double. The hundredths printed
  are therefore within \<open>1/2 + 50 / 2 ^ 21\<close> of a hundred times the exact quotient.
\<close>

lemma bits_nonneg: "0 \<le> bits a"
  by (induction a rule: bits.induct) (subst bits.simps, simp)

lemma bits_pos: "0 < a \<Longrightarrow> 1 \<le> bits a"
  using bits_nonneg [of "a div 2"] by (subst bits.simps) simp

lemma bits_le: "a < 2 ^ k \<Longrightarrow> bits a \<le> int k"
proof (induction k arbitrary: a)
  case 0
  then show ?case by (subst bits.simps) simp
next
  case (Suc k)
  show ?case
  proof (cases "a \<le> 0")
    case True
    then show ?thesis by (subst bits.simps) simp
  next
    case False
    from Suc.prems have "a div 2 < 2 ^ k" by simp
    from Suc.IH [OF this] False show ?thesis by (subst bits.simps) simp
  qed
qed

lemma round_half_even_near:
  assumes "0 \<le> p" and "0 < r"
  shows "0 \<le> round_half_even p r \<and> 2 * \<bar>round_half_even p r * r - p\<bar> \<le> r"
proof -
  define q where "q = p div r"
  define m where "m = p mod r"
  have p: "p = q * r + m" by (simp add: q_def m_def)
  from assms have m: "0 \<le> m" "m < r" by (simp_all add: m_def)
  from assms have q: "0 \<le> q" by (simp add: q_def pos_imp_zdiv_nonneg_iff)
  have r: "round_half_even p r = (if 2 * m < r then q else if r < 2 * m then q + 1
         else if even q then q else q + 1)"
    by (simp add: round_half_even_def q_def m_def Let_def)
  have "(q + 1) * r - p = r - m" by (simp add: p algebra_simps)
  moreover have "q * r - p = - m" by (simp add: p)
  ultimately show ?thesis using m q unfolding r by auto
qed

lemma floor_log2_range:
  assumes "0 < n" and "n < 2 ^ 32" and "0 < d" and "d \<le> 100000000"
  shows "- 28 \<le> floor_log2 n d \<and> floor_log2 n d \<le> 31"
proof -
  from assms(4) have "d < 2 ^ 27" by simp
  then have "bits d \<le> 27" using bits_le [of d 27] by simp
  moreover from assms(2) have "bits n \<le> 32" using bits_le [of n 32] by simp
  moreover note bits_pos [OF assms(1)] bits_pos [OF assms(3)]
  ultimately show ?thesis by (auto simp: floor_log2_def Let_def)
qed

lemma average_bound:
  fixes n d km k R :: int
  assumes d: "0 < d" and R: "2 ^ 21 \<le> R"
    and 1: "2 * \<bar>km * d - n * R\<bar> \<le> d"
    and 2: "2 * (R * k) \<le> 200 * km + R" and 3: "200 * km + R < 2 * (R * k) + 2 * R"
  shows "2 ^ 21 * \<bar>k * d - 100 * n\<bar> \<le> (2 ^ 20 + 50) * d"
proof -
  define A where "A = R * k - 100 * km"
  define B where "B = km * d - n * R"
  define X where "X = \<bar>k * d - 100 * n\<bar>"
  from R have R0: "0 < R" by simp
  from 2 3 have a: "2 * \<bar>A\<bar> \<le> R" unfolding A_def by arith
  from 1 have b: "2 * \<bar>B\<bar> \<le> d" by (simp add: B_def)
  have "R * (k * d - 100 * n) = d * A + 100 * B"
    by (simp add: A_def B_def algebra_simps)
  then have "\<bar>R * (k * d - 100 * n)\<bar> \<le> \<bar>d * A\<bar> + \<bar>100 * B\<bar>"
    by (metis abs_triangle_ineq)
  then have c: "R * X \<le> d * \<bar>A\<bar> + 100 * \<bar>B\<bar>"
    using d R0 by (simp add: abs_mult X_def)
  have "d * (2 * \<bar>A\<bar>) \<le> d * R"
    using a d by (intro mult_left_mono) simp_all
  with c b have e: "2 * (R * X) \<le> R * d + 100 * d" by (simp add: mult.commute)
  have "2 ^ 21 * d \<le> R * d"
    using R d by (intro mult_right_mono) simp_all
  then have "2097152 * d \<le> R * d" by simp
  with e have "4194304 * (R * X) \<le> 2097252 * (R * d)"
    by linarith
  then have "R * (2 ^ 22 * X) \<le> R * ((2 ^ 21 + 100) * d)"
    by (simp add: mult.left_commute [of R])
  with R0 have "2 ^ 22 * X \<le> (2 ^ 21 + 100) * d"
    by (simp only: mult_le_cancel_left_pos)
  then show ?thesis by (simp add: X_def)
qed


lemma to_double_quotient:
  assumes "0 < p" and "p < 2 ^ 32" and "0 < r" and "r \<le> 100000000"
  shows "(\<exists>q. to_double p r = Fin q 0 \<and> q * r = p) \<or>
     (\<exists>E. 21 \<le> E \<and>
        to_double p r =
          (if round_half_even (p * 2 ^ E) r = 0 then Fin 0 0
           else Fin (round_half_even (p * 2 ^ E) r) (- int E)))"
proof (cases "p mod r = 0 \<and> \<bar>p div r\<bar> \<le> 2 ^ 53")
  case True
  with assms(1) have "to_double p r = Fin (p div r) 0" by (simp add: to_double_def)
  moreover from True have "p div r * r = p" by auto
  ultimately show ?thesis by blast
next
  case False
  define e where "e = floor_log2 p r"
  define E where "E = nat (52 - e)"
  from floor_log2_range [OF assms] have e: "- 28 \<le> e" "e \<le> 31" by (simp_all add: e_def)
  then have m: "max e (- 1022) = e" and l: "e \<le> 52" and E: "e - 52 = - int E" "21 \<le> E"
    by (simp_all add: E_def)
  from assms(1) have a: "\<bar>p\<bar> = p" "p \<noteq> 0" "\<not> p < 0" by simp_all
  have "to_double p r =
      (if round_half_even (p * 2 ^ E) r = 0 then Fin 0 0
       else Fin (round_half_even (p * 2 ^ E) r) (- int E))"
    using False l assms(1)
    by (auto simp add: to_double_def Let_def e_def [symmetric] m E(1) E_def [symmetric])
  with E(2) show ?thesis by blast
qed

lemma toFixed2_Fin:
  assumes "0 \<le> m" and "m < 10 ^ 21 * 2 ^ E"
  shows "toFixed2 (Fin m (- int E)) =
     decimal ((200 * m + 2 ^ E) div (2 * 2 ^ E) div 100) @ ''.'' @
     pad 2 (nat ((200 * m + 2 ^ E) div (2 * 2 ^ E) mod 100))"
proof (cases "E = 0")
  case True
  with assms show ?thesis by (simp add: toFixed2_def fraction_def Let_def)
next
  case False
  with assms show ?thesis by (simp add: toFixed2_def fraction_def Let_def)
qed

lemma toFixed2_zero: "toFixed2 (Fin 0 (- int E)) = toFixed2 (Fin 0 0)"
proof -
  have "(2 ^ E :: int) div (2 * 2 ^ E) = 0" by simp
  with toFixed2_Fin [of 0 E] toFixed2_Fin [of 0 0] show ?thesis by simp
qed

lemma average_accuracy:
  assumes "n < 2 ^ 32" and "0 < d" and "d \<le> 100000000"
  shows "\<exists>k. 0 \<le> k \<and>
     toFixed2 (divide_length n (Fin d 0)) =
       decimal (k div 100) @ ''.'' @ pad 2 (nat (k mod 100)) \<and>
     2 ^ 21 * \<bar>k * d - 100 * int n\<bar> \<le> (2 ^ 20 + 50) * d"
proof (cases "n = 0")
  case True
  with assms(2) have "divide_length n (Fin d 0) = Fin 0 (- int 0)"
    by (simp add: divide_length_def)
  then have "toFixed2 (divide_length n (Fin d 0)) =
      decimal (0 div 100) @ ''.'' @ pad 2 (nat (0 mod 100))"
    using toFixed2_Fin [of 0 0] by simp
  with True assms(2) show ?thesis by (intro exI [of _ 0]) simp
next
  case False
  define p where "p = int n"
  from False assms(1) have p: "0 < p" "p < 2 ^ 32" by (simp_all add: p_def)
  from False assms(2) have q: "divide_length n (Fin d 0) = to_double p d"
    by (simp add: divide_length_def fraction_def p_def)
  have "\<exists>km E. 0 \<le> km \<and> km < 10 ^ 21 * 2 ^ E \<and>
      toFixed2 (to_double p d) = toFixed2 (Fin km (- int E)) \<and>
      ((E = 0 \<and> km * d = p) \<or> (21 \<le> E \<and> 2 * \<bar>km * d - p * 2 ^ E\<bar> \<le> d))"
    using to_double_quotient [OF p assms(2,3)]
  proof (elim disjE exE conjE)
    fix q
    assume t: "to_double p d = Fin q 0" and e: "q * d = p"
    from p(1) have "0 < q * d" by (simp only: e)
    with assms(2) have "0 < q" by (simp add: zero_less_mult_iff)
    moreover from assms(2) \<open>0 < q\<close> have "q * 1 \<le> q * d"
      by (intro mult_left_mono) simp_all
    with p(2) have "q < 10 ^ 21 * 2 ^ 0" by (simp add: e)
    ultimately show ?thesis using t e by (intro exI [of _ q] exI [of _ 0]) simp
  next
    fix E :: nat
    define km where "km = round_half_even (p * 2 ^ E) d"
    assume E: "21 \<le> E"
      and "to_double p d =
        (if round_half_even (p * 2 ^ E) d = 0 then Fin 0 0
         else Fin (round_half_even (p * 2 ^ E) d) (- int E))"
    then have t: "toFixed2 (to_double p d) = toFixed2 (Fin km (- int E))"
      by (simp add: km_def toFixed2_zero)
    from p(1) have "0 \<le> p * 2 ^ E" by simp
    from round_half_even_near [OF this assms(2)]
    have k: "0 \<le> km" "2 * \<bar>km * d - p * 2 ^ E\<bar> \<le> d" by (simp_all add: km_def)
    have "km \<le> 2 ^ 32 * 2 ^ E"
    proof (cases "km = 0")
      case True
      then show ?thesis by simp
    next
      case False
      with k(1) have "0 \<le> km - 1" by simp
      then have "(km - 1) * 1 \<le> (km - 1) * d"
        using assms(2) by (intro mult_left_mono) simp_all
      also have "\<dots> = km * d - d" by (simp add: algebra_simps)
      also from k(2) assms(2) have "\<dots> \<le> p * 2 ^ E" by arith
      also from p(2) have "\<dots> \<le> (2 ^ 32 - 1) * 2 ^ E"
        by (intro mult_right_mono) simp_all
      finally have "km \<le> 1 + 4294967295 * 2 ^ E" by simp
      moreover have "(1::int) \<le> 2 ^ E" by simp
      ultimately have "km \<le> 4294967296 * 2 ^ E" by linarith
      then show ?thesis by simp
    qed
    also have "\<dots> < 10 ^ 21 * 2 ^ E" by simp
    finally show ?thesis using k t E by blast
  qed
  then obtain km E where km: "0 \<le> km" "km < 10 ^ 21 * 2 ^ E"
    and t: "toFixed2 (to_double p d) = toFixed2 (Fin km (- int E))"
    and c: "(E = 0 \<and> km * d = p) \<or> (21 \<le> E \<and> 2 * \<bar>km * d - p * 2 ^ E\<bar> \<le> d)"
    by blast
  define R :: int where "R = 2 ^ E"
  define k where "k = (200 * km + R) div (2 * R)"
  have R: "0 < R" by (simp add: R_def)
  from km(1) R have k0: "0 \<le> k" by (simp add: k_def pos_imp_zdiv_nonneg_iff)
  have s: "toFixed2 (divide_length n (Fin d 0)) =
      decimal (k div 100) @ ''.'' @ pad 2 (nat (k mod 100))"
    unfolding q t k_def R_def by (rule toFixed2_Fin [OF km])
  from c have "2 ^ 21 * \<bar>k * d - 100 * p\<bar> \<le> (2 ^ 20 + 50) * d"
  proof
    assume a: "E = 0 \<and> km * d = p"
    then have "k = 100 * km" by (simp add: k_def R_def)
    with a assms(2) show ?thesis by auto
  next
    assume a: "21 \<le> E \<and> 2 * \<bar>km * d - p * 2 ^ E\<bar> \<le> d"
    then have "(2::int) ^ 21 \<le> 2 ^ E" by (intro power_increasing) simp_all
    then have 1: "2 ^ 21 \<le> R" by (simp add: R_def)
    from a have 2: "2 * \<bar>km * d - p * R\<bar> \<le> d" by (simp add: R_def)
    have "200 * km + R = 2 * R * k + (200 * km + R) mod (2 * R)"
      by (simp add: k_def)
    moreover from R have "0 \<le> (200 * km + R) mod (2 * R)" "(200 * km + R) mod (2 * R) < 2 * R"
      by simp_all
    ultimately have "2 * (R * k) \<le> 200 * km + R" "200 * km + R < 2 * (R * k) + 2 * R"
      by (simp_all add: mult.assoc)
    from average_bound [OF assms(2) 1 2 this] show ?thesis .
  qed
  with k0 s show ?thesis unfolding p_def by blast
qed

lemma get_trends_NaN:
  assumes "parseInt v = NaN"
  shows "get_trends other now (Some v) entries =
     \<lparr>period_days = NaN, total_entries = 0, avg_per_day = ''NaN'',
      categories = [], severities = []\<rparr>"
proof -
  have "\<And>a. not_before a None = False" by (simp add: not_before_def split: option.splits)
  then show ?thesis
    by (simp add: get_trends_def assms times_const_def minus_from_def Date_of_number_def
        tally_def divide_length_def toFixed2_def)
qed

lemma get_trends_days:
  assumes "parseInt v = Fin d 0" and "0 < d" and "d \<le> 100000000"
    and "\<bar>now\<bar> \<le> 8640000000000000" and "- 8640000000000000 \<le> now - d * msPerDay"
  shows "get_trends other now (Some v) entries =
     \<lparr>period_days = Fin d 0,
      total_entries = length (recent other now d entries),
      avg_per_day = toFixed2 (divide_length (length (recent other now d entries)) (Fin d 0)),
      categories = fst (tally (recent other now d entries)),
      severities = snd (tally (recent other now d entries))\<rparr>"
proof -
  have n: "\<And>a y. not_before a (Some y) = (case a of None \<Rightarrow> False | Some x \<Rightarrow> y \<le> x)"
    by (simp add: not_before_def split: option.splits)
  show ?thesis
    unfolding get_trends_def
    by (simp add: assms(1) start_of_period [OF assms(2-5)] n recent_def Let_def split: prod.splits)
qed

text \<open>
  C2, as the code has it. Without the parameter \<^verbatim>\<open>days\<close> the report is that of 30 days.
  A value that \<^verbatim>\<open>parseInt\<close> cannot read is not replaced by the default: the period is NaN,
  no entry is selected and the average is the string \<^verbatim>\<open>NaN\<close>. A value read as a positive
  integer \<open>d\<close> selects the entries stamped from \<open>now - d\<close> days on, and the average is their
  number divided by \<open>d\<close> as a double, printed by \<^verbatim>\<open>toFixed(2)\<close>: with fewer than \<open>2 ^ 32\<close>
  entries, as in every JavaScript array, it is a number \<open>k\<close> of hundredths, written with two
  decimals, and \<open>k / 100\<close> is within \<open>0.005 + 0.00000024\<close> of the exact quotient.
\<close>

theorem trends_report:
  "get_trends other now None entries = get_trends other now (Some ''30'') entries
   \<and> (parseInt v = NaN \<longrightarrow>
        get_trends other now (Some v) entries =
          \<lparr>period_days = NaN, total_entries = 0, avg_per_day = ''NaN'',
           categories = [], severities = []\<rparr>)
   \<and> (parseInt v = Fin d 0 \<and> 0 < d \<and> d \<le> 100000000 \<and> \<bar>now\<bar> \<le> 8640000000000000
        \<and> - 8640000000000000 \<le> now - d * msPerDay \<longrightarrow>
        get_trends other now (Some v) entries =
          \<lparr>period_days = Fin d 0,
           total_entries = length (recent other now d entries),
           avg_per_day =
             toFixed2 (divide_length (length (recent other now d entries)) (Fin d 0)),
           categories = fst (tally (recent other now d entries)),
           severities = snd (tally (recent other now d entries))\<rparr>
        \<and> (length entries < 2 ^ 32 \<longrightarrow>
             (\<exists>k. 0 \<le> k
                \<and> avg_per_day (get_trends other now (Some v) entries) =
                    decimal (k div 100) @ ''.'' @ pad 2 (nat (k mod 100))
                \<and> 2 ^ 21 * \<bar>k * d - 100 * int (length (recent other now d entries))\<bar>
                    \<le> (2 ^ 20 + 50) * d)))"
proof (intro conjI impI)
  show "get_trends other now None entries = get_trends other now (Some ''30'') entries"
    by (simp add: get_trends_def)
next
  assume "parseInt v = NaN"
  then show "get_trends other now (Some v) entries =
      \<lparr>period_days = NaN, total_entries = 0, avg_per_day = ''NaN'',
       categories = [], severities = []\<rparr>"
    by (rule get_trends_NaN)
next
  assume "parseInt v = Fin d 0 \<and> 0 < d \<and> d \<le> 100000000 \<and> \<bar>now\<bar> \<le> 8640000000000000
    \<and> - 8640000000000000 \<le> now - d * msPerDay"
  then show "get_trends other now (Some v) entries =
      \<lparr>period_days = Fin d 0,
       total_entries = length (recent other now d entries),
       avg_per_day =
         toFixed2 (divide_length (length (recent other now d entries)) (Fin d 0)),
       categories = fst (tally (recent other now d entries)),
       severities = snd (tally (recent other now d entries))\<rparr>"
    by (intro get_trends_days) simp_all
next
  assume a: "parseInt v = Fin d 0 \<and> 0 < d \<and> d \<le> 100000000 \<and> \<bar>now\<bar> \<le> 8640000000000000
    \<and> - 8640000000000000 \<le> now - d * msPerDay"
    and l: "length entries < 2 ^ 32"
  from a have g: "avg_per_day (get_trends other now (Some v) entries) =
      toFixed2 (divide_length (length (recent other now d entries)) (Fin d 0))"
    by (subst get_trends_days) simp_all
  have "length (recent other now d entries) \<le> length entries" by (simp add: recent_def)
  with l have "length (recent other now d entries) < 2 ^ 32" by simp
  from average_accuracy [OF this] a
  show "\<exists>k. 0 \<le> k
      \<and> avg_per_day (get_trends other now (Some v) entries) =
          decimal (k div 100) @ ''.'' @ pad 2 (nat (k mod 100))
      \<and> 2 ^ 21 * \<bar>k * d - 100 * int (length (recent other now d entries))\<bar>
          \<le> (2 ^ 20 + 50) * d"
    unfolding g by blast
qed

lemma parseInt_examples:
  "parseInt ''abc'' = NaN" "parseInt ''2'' = Fin 2 0" "parseInt ''30'' = Fin 30 0"
  by code_simp+

lemma example_times:
  "iso_string 1699776000000 = ''2023-11-12T08:00:00.000Z''"
  "iso_string 1699781400000 = ''2023-11-12T09:30:00.000Z''"
  by (simp_all add: iso_string_def msPerDay_def example_dates iso_time_def pad_numeral digit_def)

lemma example_stamps:
  "Date_of_string other ''2023-11-14T22:13:20.000Z'' = Some 1700000000000"
  "Date_of_string other ''2023-11-12T08:00:00.000Z'' = Some 1699776000000"
  "Date_of_string other ''2023-11-12T09:30:00.000Z'' = Some 1699781400000"
proof -
  have "iso_time_value ''2023-11-14T22:13:20.000Z'' = 1700000000000"
    "iso_time_value ''2023-11-12T08:00:00.000Z'' = 1699776000000"
    "iso_time_value ''2023-11-12T09:30:00.000Z'' = 1699781400000"
    by (simp_all add: iso_time_value_def field_def to_number_def digit_val_def digit_def
        days_from_civil_def msPerDay_def)
  then show "Date_of_string other ''2023-11-14T22:13:20.000Z'' = Some 1700000000000"
    "Date_of_string other ''2023-11-12T08:00:00.000Z'' = Some 1699776000000"
    "Date_of_string other ''2023-11-12T09:30:00.000Z'' = Some 1699781400000"
    by (simp_all add: Date_of_string_def example_now example_times)
qed

lemma example_recent:
  "recent other 1700000000000 2 example_entries = [hd example_entries]"
  by (simp add: recent_def example_entries_def example_stamps msPerDay_def)

lemma example_average: "toFixed2 (divide_length (Suc 0) (Fin 2 0)) = ''0.50''"
  by code_simp

lemma example_rounding: "toFixed2 (divide_length 201 (Fin 200 0)) = ''1.00''"
  by code_simp

theorem trends_report_witness:
  "parseInt ''abc'' = NaN
   \<and> get_trends no_other 1700000000000 (Some ''abc'') example_entries =
       \<lparr>period_days = NaN, total_entries = 0, avg_per_day = ''NaN'',
        categories = [], severities = []\<rparr>
   \<and> parseInt ''2'' = Fin 2 0
   \<and> - 8640000000000000 \<le> 1700000000000 - 2 * msPerDay
   \<and> length example_entries < 2 ^ 32
   \<and> get_trends no_other 1700000000000 (Some ''2'') example_entries =
       \<lparr>period_days = Fin 2 0, total_entries = 1, avg_per_day = ''0.50'',
        categories = [(Issue, 1)], severities = [(High, 1)]\<rparr>
   \<and> (\<exists>k. 0 \<le> k \<and> ''0.50'' = decimal (k div 100) @ ''.'' @ pad 2 (nat (k mod 100))
         \<and> 2 ^ 21 * \<bar>k * 2 - 100\<bar> \<le> (2 ^ 20 + 50) * (2::int))"
proof -
  have t: "tally [hd example_entries] = ([(Issue, 1)], [(High, 1)])"
    by (simp add: tally_def example_entries_def increment_def)
  have b: "- 8640000000000000 \<le> 1700000000000 - 2 * msPerDay" by (simp add: msPerDay_def)
  have l: "length example_entries < 2 ^ 32" by (simp add: example_entries_def)
  note n = trends_report [of no_other 1700000000000 example_entries "''abc''" 2,
      THEN conjunct2, THEN conjunct1, rule_format, OF parseInt_examples(1)]
  have h: "parseInt ''2'' = Fin 2 0 \<and> (0::int) < 2 \<and> (2::int) \<le> 100000000
      \<and> \<bar>1700000000000::int\<bar> \<le> 8640000000000000
      \<and> - 8640000000000000 \<le> 1700000000000 - 2 * msPerDay"
    using b parseInt_examples(2) by simp
  note d = trends_report [of no_other 1700000000000 example_entries "''2''" 2,
      THEN conjunct2, THEN conjunct2, rule_format, OF h]
  have g: "get_trends no_other 1700000000000 (Some ''2'') example_entries =
       \<lparr>period_days = Fin 2 0, total_entries = 1, avg_per_day = ''0.50'',
        categories = [(Issue, 1)], severities = [(High, 1)]\<rparr>"
    using d [THEN conjunct1] by (simp add: example_recent example_average t)
  have "\<exists>k. 0 \<le> k \<and> ''0.50'' = decimal (k div 100) @ ''.'' @ pad 2 (nat (k mod 100))
         \<and> 2 ^ 21 * \<bar>k * 2 - 100\<bar> \<le> (2 ^ 20 + 50) * (2::int)"
    using d [THEN conjunct2, rule_format, OF l] unfolding g example_recent by simp
  with n g b l parseInt_examples(1,2) show ?thesis by simp
qed

text \<open>
  A value of \<^verbatim>\<open>days\<close> that is no number does not bring the default back: with
  \<^verbatim>\<open>abc\<close> the period is NaN and nothing is selected, where the default gives 30 days and
  all three entries.
\<close>

theorem trends_no_fallback:
  "get_trends no_other 1700000000000 (Some ''abc'') example_entries =
     \<lparr>period_days = NaN, total_entries = 0, avg_per_day = ''NaN'',
      categories = [], severities = []\<rparr>
   \<and> get_trends no_other 1700000000000 None example_entries =
     \<lparr>period_days = Fin 30 0, total_entries = 3, avg_per_day = ''0.10'',
      categories = [(Issue, 2), (Delay, 1)], severities = [(High, 1), (Low, 2)]\<rparr>"
proof -
  have r: "recent no_other 1700000000000 30 example_entries = example_entries"
    by (simp add: recent_def example_entries_def example_stamps msPerDay_def)
  have a: "toFixed2 (divide_length 3 (Fin 30 0)) = ''0.10''" by code_simp
  have l: "length example_entries = 3" by (simp add: example_entries_def)
  have b: "- 8640000000000000 \<le> 1700000000000 - 30 * msPerDay" by (simp add: msPerDay_def)
  have "get_trends no_other 1700000000000 None example_entries
      = get_trends no_other 1700000000000 (Some ''30'') example_entries"
    by (simp add: get_trends_def)
  also have "\<dots> = \<lparr>period_days = Fin 30 0, total_entries = 3, avg_per_day = ''0.10'',
      categories = [(Issue, 2), (Delay, 1)], severities = [(High, 1), (Low, 2)]\<rparr>"
    using get_trends_days [OF parseInt_examples(3) _ _ _ b, of no_other example_entries]
    by (simp add: r a l example_tally)
  finally show ?thesis
    using get_trends_NaN [OF parseInt_examples(1), of no_other 1700000000000 example_entries]
    by simp
qed

end
